theory Spec2Isabelle
  imports Complex_Main
begin

section \<open>JavaScript numbers and array reads\<close>

text \<open>
  The program computes with IEEE doubles. They are modelled by the reals; an operation whose
  JavaScript result would lie outside the reals (\<open>NaN\<close>, an infinity, \<open>undefined\<close>) returns
  \<open>None\<close>. The functions of the first sections compute exactly; the scan and the note
  mapping are given a second time further down with the rounding of every arithmetic result,
  and the exact ones are those of identity rounding. Overflow of finite values is not
  modelled.
\<close>

definition js_div :: "real \<Rightarrow> real \<Rightarrow> real option" where
  \<comment> \<open>\<open>a / b\<close>: \<open>NaN\<close> or an infinity when \<open>b\<close> is zero.\<close>
  "js_div a b = (if b = 0 then None else Some (a / b))"

definition js_sqrt :: "real \<Rightarrow> real option" where
  \<comment> \<open>\<open>Math.sqrt\<close>: \<open>NaN\<close> on a negative argument.\<close>
  "js_sqrt x = (if x < 0 then None else Some (sqrt x))"

definition js_log2 :: "real \<Rightarrow> real option" where
  \<comment> \<open>\<open>Math.log2\<close>: \<open>NaN\<close> on a negative argument, \<open>-Infinity\<close> at zero.\<close>
  "js_log2 x = (if 0 < x then Some (log 2 x) else None)"

definition js_index :: "'a list \<Rightarrow> int \<Rightarrow> 'a option" where
  \<comment> \<open>\<open>xs[k]\<close>: \<open>undefined\<close> outside the array.\<close>
  "js_index xs k = (if 0 \<le> k \<and> k < int (length xs) then Some (xs ! nat k) else None)"

section \<open>Pitch estimation: \<open>autoCorrelate\<close>\<close>

text \<open>
  The inner loop of \<open>autoCorrelate\<close> (counter \<open>i\<close>), accumulating \<open>sum\<close>, \<open>sumSq1\<close> and
  \<open>sumSq2\<close>.
\<close>

function correlate ::
  "real list \<Rightarrow> int \<Rightarrow> int \<Rightarrow> int \<Rightarrow> real \<times> real \<times> real \<Rightarrow> (real \<times> real \<times> real) option" where
  "correlate buffer MAX_SAMPLES offset i (sm, sumSq1, sumSq2) =
     (if i < MAX_SAMPLES - offset then
        (case js_index buffer i of
           None \<Rightarrow> None
         | Some val1 \<Rightarrow>
            (case js_index buffer (i + offset) of
               None \<Rightarrow> None
             | Some val2 \<Rightarrow>
                correlate buffer MAX_SAMPLES offset (i + 1)
                  (sm + val1 * val2, sumSq1 + val1 * val1, sumSq2 + val2 * val2)))
      else Some (sm, sumSq1, sumSq2))"
  by pat_completeness auto
termination
  by (relation "measure (\<lambda>(buffer, MAX_SAMPLES, offset, i, acc). nat (MAX_SAMPLES - offset - i))") auto

declare correlate.simps [simp del]

text \<open>
  The outer loop (counter \<open>offset\<close>, bound \<open>Math.min(MAX_SAMPLES, maxPeriod)\<close>), carrying
  \<open>bestOffset\<close> and \<open>bestCorrelation\<close>.
\<close>

function scan ::
  "real list \<Rightarrow> int \<Rightarrow> int \<Rightarrow> int \<Rightarrow> int \<times> real \<Rightarrow> (int \<times> real) option" where
  "scan buffer MAX_SAMPLES bound offset (bestOffset, bestCorrelation) =
     (if offset < bound then
        (case correlate buffer MAX_SAMPLES offset 0 (0, 0, 0) of
           None \<Rightarrow> None
         | Some (sm, sumSq1, sumSq2) \<Rightarrow>
            (case js_sqrt (sumSq1 * sumSq2) of
               None \<Rightarrow> None
             | Some nrm \<Rightarrow>
                if nrm > 0 then
                  (case js_div sm nrm of
                     None \<Rightarrow> None
                   | Some correlation \<Rightarrow>
                      if correlation > bestCorrelation
                      then scan buffer MAX_SAMPLES bound (offset + 1) (offset, correlation)
                      else scan buffer MAX_SAMPLES bound (offset + 1) (bestOffset, bestCorrelation))
                else scan buffer MAX_SAMPLES bound (offset + 1) (bestOffset, bestCorrelation)))
      else Some (bestOffset, bestCorrelation))"
  by pat_completeness auto
termination
  by (relation "measure (\<lambda>(buffer, MAX_SAMPLES, bound, offset, best). nat (bound - offset))") auto

declare scan.simps [simp del]

definition autoCorrelate :: "real list \<Rightarrow> real \<Rightarrow> real option" where
  "autoCorrelate buffer sampleRate =
     (let SIZE = int (length buffer);
          MAX_SAMPLES = SIZE div 2;
          minPeriod = \<lfloor>sampleRate / 400\<rfloor>;
          maxPeriod = \<lfloor>sampleRate / 80\<rfloor>
      in case scan buffer MAX_SAMPLES (min MAX_SAMPLES maxPeriod) minPeriod (-1, -1) of
           None \<Rightarrow> None
         | Some (bestOffset, bestCorrelation) \<Rightarrow>
            if bestCorrelation > 0.2 \<and> bestOffset > 0
            then js_div sampleRate (real_of_int bestOffset)
            else Some (-1))"

section \<open>Constants\<close>

text \<open>
  An entry of \<open>GUITAR_STRINGS\<close>; its fields \<open>note\<close> and \<open>octave\<close> are \<open>stringNote\<close> and
  \<open>stringOctave\<close> here.
\<close>

record guitar_string =
  stringNote :: string
  stringOctave :: int
  freq :: real
  label :: string

definition GUITAR_STRINGS :: "guitar_string list" where
  "GUITAR_STRINGS =
     [\<lparr>stringNote = ''E'', stringOctave = 2, freq = 82.41, label = ''E2''\<rparr>,
      \<lparr>stringNote = ''A'', stringOctave = 2, freq = 110.00, label = ''A''\<rparr>,
      \<lparr>stringNote = ''D'', stringOctave = 3, freq = 146.83, label = ''D''\<rparr>,
      \<lparr>stringNote = ''G'', stringOctave = 3, freq = 196.00, label = ''G''\<rparr>,
      \<lparr>stringNote = ''B'', stringOctave = 3, freq = 246.94, label = ''B''\<rparr>,
      \<lparr>stringNote = ''E'', stringOctave = 4, freq = 329.63, label = ''E4''\<rparr>]"

definition NOTE_NAMES :: "string list" where
  "NOTE_NAMES = [''C'', ''C#'', ''D'', ''D#'', ''E'', ''F'', ''F#'', ''G'', ''G#'', ''A'', ''A#'', ''B'']"

definition A4_FREQ :: real where "A4_FREQ = 440"
definition A4_MIDI :: real where "A4_MIDI = 69"
definition IN_TUNE_CENTS :: int where "IN_TUNE_CENTS = 5"
definition MIN_VOLUME :: real where "MIN_VOLUME = 0.01"
definition EMA_ALPHA :: real where "EMA_ALPHA = 0.2"

section \<open>Note mapping\<close>

definition js_rem :: "int \<Rightarrow> int \<Rightarrow> int" where
  \<comment> \<open>\<open>a % b\<close> on integers, \<open>b\<close> nonzero: the remainder takes the sign of \<open>a\<close>.\<close>
  "js_rem a b = sgn a * (\<bar>a\<bar> mod \<bar>b\<bar>)"

record note_info =
  noteName :: string
  noteOctave :: int
  midi :: int
  cents :: int
  frequency :: real

text \<open>
  \<open>getNoteFromFrequency\<close>. The fields \<open>note\<close> and \<open>octave\<close> of the returned object are
  \<open>noteName\<close> and \<open>noteOctave\<close> here.
\<close>

definition getNoteFromFrequency :: "real \<Rightarrow> note_info option" where
  "getNoteFromFrequency f =
     (case js_log2 (f / A4_FREQ) of
        None \<Rightarrow> None
      | Some l \<Rightarrow>
         (let midiNote = 12 * l + A4_MIDI;
              roundedMidi = round midiNote;
              cents = round ((midiNote - real_of_int roundedMidi) * 100);
              noteIndex = js_rem (js_rem roundedMidi 12 + 12) 12;
              octave = \<lfloor>real_of_int roundedMidi / 12\<rfloor> - 1
          in case js_index NOTE_NAMES noteIndex of
               None \<Rightarrow> None
             | Some name \<Rightarrow>
                Some \<lparr>noteName = name, noteOctave = octave, midi = roundedMidi,
                      cents = cents, frequency = f\<rparr>))"

text \<open>The locked-mode deviation of \<open>updateDisplay\<close>: \<open>Math.round(1200 * Math.log2(frequency / lockedString.freq))\<close>.\<close>

definition lockedCents :: "real \<Rightarrow> real \<Rightarrow> int option" where
  "lockedCents f target =
     (case js_div f target of
        None \<Rightarrow> None
      | Some q \<Rightarrow> (case js_log2 q of None \<Rightarrow> None | Some l \<Rightarrow> Some (round (1200 * l))))"

definition isInTune :: "int \<Rightarrow> bool" where
  \<comment> \<open>\<open>Math.abs(cents) <= IN_TUNE_CENTS\<close>\<close>
  "isInTune c = (\<bar>c\<bar> \<le> IN_TUNE_CENTS)"

section \<open>Session state and display\<close>

text \<open>
  The text of a DOM element: a string, a number converted to a string, \<open>x.toFixed(1)\<close>, or
  a number behind a plus sign. \<open>DASH\<close> is the placeholder of an empty display, an em dash
  (here in UTF-8).
\<close>

datatype content = Text string | Number int | Fixed1 real | Plus int

definition DASH :: string where
  "DASH = [CHR 0xE2, CHR 0x80, CHR 0x94]"

text \<open>The classes \<open>locked\<close>, \<open>active\<close> and \<open>in-tune\<close> of a string button.\<close>

record string_button =
  locked :: bool
  active :: bool
  in_tune :: bool

text \<open>
  The module's variables and the part of the page it writes. \<open>audioContext\<close> holds the
  context's \<open>sampleRate\<close>, \<open>mediaStream\<close> is whether a stream is held, \<open>segments\<close> is
  the \<open>active\<close> class of each meter segment, \<open>noteInTune\<close> the \<open>in-tune\<close> class of the
  note element, \<open>startBtnListening\<close> the \<open>listening\<close> class of the start button and
  \<open>statusError\<close> the \<open>error\<close> class of the status line.
\<close>

record tuner =
  isListening :: bool
  animationId :: "nat option"
  mediaStream :: bool
  audioContext :: "real option"
  lockedStringIndex :: "nat option"
  smoothedFrequency :: "real option"
  noteText :: content
  noteInTune :: bool
  octaveText :: content
  hzText :: content
  centsText :: content
  segments :: "bool list"
  stringButtons :: "string_button list"
  startBtnListening :: bool
  startBtnLabel :: string
  statusText :: string
  statusError :: bool

text \<open>
  How a function that works on the state ends: it returns, it throws a \<open>TypeError\<close> (with
  the state at that moment), or it produces a value outside the reals, after which the model
  says nothing.
\<close>

datatype outcome = Done tuner | TypeError tuner | NonFinite

definition clearButton :: "string_button \<Rightarrow> string_button" where
  \<comment> \<open>\<open>btn.classList.remove('active', 'in-tune')\<close>\<close>
  "clearButton btn = btn\<lparr>active := False, in_tune := False\<rparr>"

definition clearSegments :: "bool list \<Rightarrow> bool list" where
  \<comment> \<open>\<open>segments.forEach(seg => seg.classList.remove('active'))\<close>\<close>
  "clearSegments segs = map (\<lambda>seg. False) segs"

definition updateUI :: "tuner \<Rightarrow> tuner" where
  "updateUI st =
     (if isListening st
      then st\<lparr>startBtnListening := True, startBtnLabel := ''Stop''\<rparr>
      else st\<lparr>startBtnListening := False, startBtnLabel := ''Start Tuning''\<rparr>)"

definition resetDisplay :: "tuner \<Rightarrow> tuner" where
  "resetDisplay st =
     st\<lparr>noteText := Text DASH,
        noteInTune := False,
        octaveText := Text [],
        hzText := Text DASH,
        centsText := Text ''0'',
        segments := clearSegments (segments st),
        stringButtons := map clearButton (stringButtons st)\<rparr>"

definition stopListening :: "tuner \<Rightarrow> tuner" where
  "stopListening st =
     (let st1 = st\<lparr>isListening := False\<rparr>;
          st2 = (case animationId st1 of
                   None \<Rightarrow> st1
                 | Some h \<Rightarrow> if h \<noteq> 0 then st1\<lparr>animationId := None\<rparr> else st1);
          st3 = (if mediaStream st2 then st2\<lparr>mediaStream := False\<rparr> else st2);
          st4 = (case audioContext st3 of
                   None \<Rightarrow> st3
                 | Some c \<Rightarrow> st3\<lparr>audioContext := None\<rparr>);
          st5 = st4\<lparr>smoothedFrequency := None\<rparr>
      in (updateUI (resetDisplay st5))\<lparr>statusText := []\<rparr>)"

text \<open>
  \<open>toggleStringLock\<close>. Unlocking reads \<open>stringButtons[index].classList\<close>, which throws
  when there is no such button.
\<close>

definition toggleStringLock :: "nat \<Rightarrow> tuner \<Rightarrow> outcome" where
  "toggleStringLock index st =
     (if lockedStringIndex st = Some index then
        (let st1 = st\<lparr>lockedStringIndex := None\<rparr>
         in case js_index (stringButtons st1) (int index) of
              None \<Rightarrow> TypeError st1
            | Some btn \<Rightarrow>
               Done (st1\<lparr>stringButtons := (stringButtons st1)[index := btn\<lparr>locked := False\<rparr>]\<rparr>))
      else
        (let st1 = st\<lparr>lockedStringIndex := Some index\<rparr>
         in Done (st1\<lparr>stringButtons :=
                    map (\<lambda>(i, btn). if i = index then btn\<lparr>locked := True\<rparr>
                                      else btn\<lparr>locked := False\<rparr>)
                        (enumerate 0 (stringButtons st1))\<rparr>)))"

section \<open>Display of a reading\<close>

text \<open>
  The loop of \<open>updateStringIndicators\<close> over \<open>GUITAR_STRINGS\<close>, carrying \<open>closestString\<close>
  and \<open>minDistance\<close>; \<open>None\<close> for \<open>minDistance\<close> is its initial value \<open>Infinity\<close>.
\<close>

fun closest ::
  "real \<Rightarrow> (nat \<times> guitar_string) list \<Rightarrow> nat option \<times> real option \<Rightarrow> (nat option \<times> real option) option" where
  "closest f [] acc = Some acc"
| "closest f ((index, str) # rest) (closestString, minDistance) =
     (case js_div f (freq str) of
        None \<Rightarrow> None
      | Some q \<Rightarrow>
         (case js_log2 q of
            None \<Rightarrow> None
          | Some l \<Rightarrow>
             (let centsFromString = 1200 * l;
                  distance = \<bar>centsFromString\<bar>
              in if (case minDistance of None \<Rightarrow> True | Some m \<Rightarrow> distance < m)
                 then closest f rest (Some index, Some distance)
                 else closest f rest (closestString, minDistance))))"

definition updateStringIndicators :: "real \<Rightarrow> bool \<Rightarrow> tuner \<Rightarrow> tuner option" where
  "updateStringIndicators f inTune st =
     (case lockedStringIndex st of
        Some lockedIndex \<Rightarrow>
          Some (st\<lparr>stringButtons :=
                  map (\<lambda>(index, btn).
                         if index = lockedIndex
                         then (if inTune then (clearButton btn)\<lparr>in_tune := True\<rparr>
                               else (clearButton btn)\<lparr>active := True\<rparr>)
                         else clearButton btn)
                      (enumerate 0 (stringButtons st))\<rparr>)
      | None \<Rightarrow>
         (case closest f (enumerate 0 GUITAR_STRINGS) (None, None) of
            None \<Rightarrow> None
          | Some (closestString, minDistance) \<Rightarrow>
             Some (st\<lparr>stringButtons :=
                     map (\<lambda>(index, btn).
                            if Some index = closestString
                               \<and> (case minDistance of None \<Rightarrow> False | Some m \<Rightarrow> m < 100)
                            then (if inTune
                                     \<and> (case minDistance of None \<Rightarrow> False
                                         | Some m \<Rightarrow> m < real_of_int IN_TUNE_CENTS)
                                  then (clearButton btn)\<lparr>in_tune := True\<rparr>
                                  else (clearButton btn)\<lparr>active := True\<rparr>)
                            else clearButton btn)
                         (enumerate 0 (stringButtons st))\<rparr>)))"

text \<open>
  \<open>updateDisplay\<close> from the line that writes the note name on, given the deviation, note
  and octave that its first lines have chosen.
\<close>

definition showReading :: "int \<Rightarrow> string \<Rightarrow> int \<Rightarrow> real \<Rightarrow> tuner \<Rightarrow> outcome" where
  "showReading c displayNote displayOctave f st =
     (let st1 = st\<lparr>noteText := Text displayNote,
                   octaveText := Number displayOctave,
                   hzText := Fixed1 f,
                   centsText := (if c \<ge> 0 then Plus c else Number c)\<rparr>;
          clampedCents = max (-50) (min 50 c);
          numSegments = length (segments st1)
      in if numSegments = 0 then Done st1
         else
          (let centsRange = 100 :: real;
               segmentIndex =
                 (case js_div centsRange (real numSegments - 1) of
                    None \<Rightarrow> 0
                  | Some width \<Rightarrow> round ((real_of_int clampedCents + 50) / width));
               clampedSegmentIndex = max 0 (min (int numSegments - 1) segmentIndex);
               cleared = clearSegments (segments st1);
               inTune = isInTune c;
               centerIndex = numSegments div 2;
               lit =
                 (if inTune then cleared[centerIndex := True]
                  else if clampedSegmentIndex < int centerIndex
                  then fold (\<lambda>i segs. segs[i := True])
                         (rev [nat clampedSegmentIndex..<centerIndex]) cleared
                  else fold (\<lambda>i segs. segs[i := True])
                         [centerIndex + 1..<nat clampedSegmentIndex + 1] cleared);
               st2 = st1\<lparr>segments := lit, noteInTune := inTune\<rparr>
           in case updateStringIndicators f inTune st2 of
                None \<Rightarrow> NonFinite
              | Some st3 \<Rightarrow> Done st3))"

definition updateDisplay :: "real \<Rightarrow> tuner \<Rightarrow> outcome" where
  "updateDisplay f st =
     (case lockedStringIndex st of
        Some lockedIndex \<Rightarrow>
         (case js_index GUITAR_STRINGS (int lockedIndex) of
            None \<Rightarrow> TypeError st
          | Some lockedString \<Rightarrow>
             (case lockedCents f (freq lockedString) of
                None \<Rightarrow> NonFinite
              | Some c \<Rightarrow> showReading c (stringNote lockedString) (stringOctave lockedString) f st))
      | None \<Rightarrow>
         (case getNoteFromFrequency f of
            None \<Rightarrow> NonFinite
          | Some noteInfo \<Rightarrow>
             showReading (cents noteInfo) (noteName noteInfo) (noteOctave noteInfo) f st))"

section \<open>The tick: \<open>detectPitch\<close>\<close>

definition rms :: "real list \<Rightarrow> real option" where
  \<comment> \<open>\<open>Math.sqrt(rms / bufferLength)\<close>, \<open>NaN\<close> for an empty buffer\<close>
  "rms buffer =
     (case js_div (\<Sum>x\<leftarrow>buffer. x * x) (real (length buffer)) of
        None \<Rightarrow> None
      | Some m \<Rightarrow> js_sqrt m)"

definition smooth :: "real option \<Rightarrow> real \<Rightarrow> real" where
  \<comment> \<open>the new \<open>smoothedFrequency\<close>: the assignment of either branch of the test for \<open>null\<close>\<close>
  "smooth smoothed f =
     (case smoothed of
        None \<Rightarrow> f
      | Some s \<Rightarrow> EMA_ALPHA * f + (1 - EMA_ALPHA) * s)"

text \<open>
  One run of \<open>detectPitch\<close> on the \<open>buffer\<close> the analyser has filled; \<open>handle\<close> is what
  \<open>requestAnimationFrame\<close> returns. The estimator is a parameter, so that a tick that does
  not call it can be told from one that does; the program's is \<open>autoCorrelate\<close>. A
  comparison with \<open>NaN\<close> is false.
\<close>

definition detectPitch_with ::
  "(real list \<Rightarrow> real \<Rightarrow> real option) \<Rightarrow> real list \<Rightarrow> nat \<Rightarrow> tuner \<Rightarrow> outcome" where
  "detectPitch_with estimator buffer handle st =
     (if \<not> isListening st then Done st
      else if (case rms buffer of None \<Rightarrow> False | Some r \<Rightarrow> r > MIN_VOLUME) then
        (case audioContext st of
           None \<Rightarrow> TypeError st
         | Some sampleRate \<Rightarrow>
            (case estimator buffer sampleRate of
               None \<Rightarrow> NonFinite
             | Some f \<Rightarrow>
                if f \<noteq> -1 then
                  (let smoothed = smooth (smoothedFrequency st) f;
                       st1 = st\<lparr>smoothedFrequency := Some smoothed\<rparr>
                   in case updateDisplay smoothed st1 of
                        Done st2 \<Rightarrow> Done (st2\<lparr>animationId := Some handle\<rparr>)
                      | TypeError st2 \<Rightarrow> TypeError st2
                      | NonFinite \<Rightarrow> NonFinite)
                else Done (st\<lparr>animationId := Some handle\<rparr>)))
      else
        Done (st\<lparr>smoothedFrequency := None,
                  noteInTune := False,
                  segments := clearSegments (segments st),
                  stringButtons := map clearButton (stringButtons st),
                  animationId := Some handle\<rparr>))"

definition detectPitch :: "real list \<Rightarrow> nat \<Rightarrow> tuner \<Rightarrow> outcome" where
  "detectPitch = detectPitch_with autoCorrelate"

text \<open>
  \<open>startListening\<close>: \<open>granted\<close> is whether \<open>getUserMedia\<close> resolves, \<open>sampleRate\<close> the
  rate of the new audio context, \<open>buffer\<close> and \<open>handle\<close> belong to the first tick, which
  runs inside the \<open>try\<close>.
\<close>

definition startListening :: "bool \<Rightarrow> real \<Rightarrow> real list \<Rightarrow> nat \<Rightarrow> tuner \<Rightarrow> outcome" where
  "startListening granted sampleRate buffer handle st =
     (if \<not> granted
      then Done (st\<lparr>statusText := ''Microphone access denied'', statusError := True\<rparr>)
      else
       (let st1 = st\<lparr>mediaStream := True, audioContext := Some sampleRate, isListening := True\<rparr>;
            st2 = (updateUI st1)\<lparr>statusText := ''Listening...'', statusError := False\<rparr>
        in case detectPitch buffer handle st2 of
             Done st3 \<Rightarrow> Done st3
           | TypeError st3 \<Rightarrow>
              Done (st3\<lparr>statusText := ''Microphone access denied'', statusError := True\<rparr>)
           | NonFinite \<Rightarrow> NonFinite))"

definition toggleListening :: "bool \<Rightarrow> real \<Rightarrow> real list \<Rightarrow> nat \<Rightarrow> tuner \<Rightarrow> outcome" where
  "toggleListening granted sampleRate buffer handle st =
     (if isListening st then Done (stopListening st)
      else startListening granted sampleRate buffer handle st)"

section \<open>The scan as the specification words it\<close>

text \<open>
  The three sums of one lag over \<open>i\<close> in \<open>[0, M - offset)\<close> with \<open>M = floor(N / 2)\<close>, the
  denominator \<open>sqrt(e1 * e2)\<close> and the normalized correlation.
\<close>

definition lag_sums :: "real list \<Rightarrow> int \<Rightarrow> real \<times> real \<times> real" where
  "lag_sums buffer offset =
     (let is = [0..<nat (int (length buffer) div 2 - offset)]
      in (\<Sum>i\<leftarrow>is. buffer ! i * buffer ! (i + nat offset),
          \<Sum>i\<leftarrow>is. buffer ! i * buffer ! i,
          \<Sum>i\<leftarrow>is. buffer ! (i + nat offset) * buffer ! (i + nat offset)))"

definition denominator :: "real list \<Rightarrow> int \<Rightarrow> real" where
  "denominator buffer offset = (case lag_sums buffer offset of (sm, e1, e2) \<Rightarrow> sqrt (e1 * e2))"

definition correlation :: "real list \<Rightarrow> int \<Rightarrow> real" where
  "correlation buffer offset = (case lag_sums buffer offset of (sm, e1, e2) \<Rightarrow> sm / sqrt (e1 * e2))"

text \<open>The candidate lags: from \<open>minPeriod\<close> up to, and without, \<open>min(M, maxPeriod)\<close>.\<close>

definition lags :: "real list \<Rightarrow> real \<Rightarrow> int list" where
  "lags buffer sampleRate =
     [\<lfloor>sampleRate / 400\<rfloor>..min (int (length buffer) div 2) \<lfloor>sampleRate / 80\<rfloor> - 1]"

text \<open>
  The element of a list with the greatest score, the earliest one among equals: a later
  element replaces an earlier one only with a strictly greater score.
\<close>

fun first_max :: "('a \<Rightarrow> real) \<Rightarrow> 'a list \<Rightarrow> 'a option" where
  "first_max f [] = None"
| "first_max f (x # xs) =
     (case first_max f xs of
        None \<Rightarrow> Some x
      | Some y \<Rightarrow> if f y > f x then Some y else Some x)"

text \<open>
  The estimate: lags with a zero denominator are skipped, the first lag of maximal
  correlation is the best one, and it is accepted when its correlation exceeds 0.2 and it is
  positive; \<open>-1\<close> is "not found".
\<close>

definition estimate_spec :: "real list \<Rightarrow> real \<Rightarrow> real" where
  "estimate_spec buffer sampleRate =
     (case first_max (correlation buffer)
             (filter (\<lambda>lag. denominator buffer lag \<noteq> 0) (lags buffer sampleRate)) of
        None \<Rightarrow> -1
      | Some bestLag \<Rightarrow>
         if correlation buffer bestLag > 0.2 \<and> bestLag > 0
         then sampleRate / real_of_int bestLag
         else -1)"

section \<open>The frame loop and example inputs\<close>

text \<open>A window of six equal samples: at 400 Hz its lags 1 and 2 both correlate perfectly.\<close>

definition six_ones :: "real list" where
  "six_ones = [1, 1, 1, 1, 1, 1]"

text \<open>
  The frame loop: each callback of \<open>requestAnimationFrame\<close> is one run of
  \<open>detectPitch\<close>; a callback that throws requests no further frame.
\<close>

fun ticks :: "(real list \<times> nat) list \<Rightarrow> tuner \<Rightarrow> outcome" where
  "ticks [] st = Done st"
| "ticks ((buffer, handle) # frames) st =
     (case detectPitch buffer handle st of
        Done st' \<Rightarrow> ticks frames st'
      | TypeError st' \<Rightarrow> TypeError st'
      | NonFinite \<Rightarrow> NonFinite)"

text \<open>
  A page with six string buttons and an empty display, once \<open>initializeMeter\<close> has added
  its 25 segments, and a session on it that is showing the open A string in tune.
\<close>

definition page :: tuner where
  "page =
     \<lparr>isListening = False, animationId = None, mediaStream = False, audioContext = None,
      lockedStringIndex = None, smoothedFrequency = None,
      noteText = Text DASH, noteInTune = False, octaveText = Text [], hzText = Text DASH,
      centsText = Text ''0'', segments = replicate 25 False,
      stringButtons = replicate 6 \<lparr>locked = False, active = False, in_tune = False\<rparr>,
      startBtnListening = False, startBtnLabel = ''Start Tuning'', statusText = [],
      statusError = False\<rparr>"

definition playing :: tuner where
  "playing =
     page\<lparr>isListening := True, animationId := Some 1, mediaStream := True,
          audioContext := Some 44100, smoothedFrequency := Some 110,
          noteText := Text ''A'', noteInTune := True, octaveText := Number 2,
          hzText := Fixed1 110, centsText := Plus 0,
          segments := (replicate 25 False)[12 := True],
          stringButtons := (replicate 6 \<lparr>locked = False, active = False, in_tune = False\<rparr>)
                             [1 := \<lparr>locked = False, active = False, in_tune = True\<rparr>],
          startBtnListening := True, startBtnLabel := ''Stop'', statusText := ''Listening...''\<rparr>"




text \<open>A constant window of 4096 samples: every lag correlates perfectly.\<close>

definition hum :: "real list" where
  "hum = replicate 4096 1"

text \<open>The same session with the A string locked.\<close>

definition locked_A :: tuner where
  "locked_A =
     playing\<lparr>lockedStringIndex := Some 1,
             stringButtons := (replicate 6 \<lparr>locked = False, active = False, in_tune = False\<rparr>)
                                [1 := \<lparr>locked = True, active = False, in_tune = True\<rparr>]\<rparr>"

section \<open>The same functions in double precision\<close>

text \<open>
  The finite values of a double, as reals: an integer of at most 53 bits times a power of
  two.
\<close>

definition double :: "real \<Rightarrow> bool" where
  "double x \<longleftrightarrow>
     (\<exists>m e :: int. \<bar>m\<bar> < 2 ^ 53 \<and> - 1074 \<le> e \<and> e \<le> 971 \<and> x = real_of_int m * 2 powr real_of_int e)"

text \<open>
  What is used of the rounding of an arithmetic result to a double: it keeps the order and
  leaves a double as it is. Results beyond the largest double are not modelled.
\<close>

definition rounding :: "(real \<Rightarrow> real) \<Rightarrow> bool" where
  "rounding rnd \<longleftrightarrow> (\<forall>x y. x \<le> y \<longrightarrow> rnd x \<le> rnd y) \<and> (\<forall>x. double x \<longrightarrow> rnd x = x)"

definition fp_div :: "(real \<Rightarrow> real) \<Rightarrow> real \<Rightarrow> real \<Rightarrow> real option" where
  \<comment> \<open>\<open>a / b\<close>, rounded\<close>
  "fp_div rnd a b = map_option rnd (js_div a b)"

definition fp_sqrt :: "(real \<Rightarrow> real) \<Rightarrow> real \<Rightarrow> real option" where
  \<comment> \<open>\<open>Math.sqrt(x)\<close>, rounded\<close>
  "fp_sqrt rnd x = map_option rnd (js_sqrt x)"

text \<open>
  \<open>autoCorrelate\<close> with every sum, product, quotient and square root rounded as it is
  formed; \<open>rnd 0.2\<close> is the double that the literal \<open>0.2\<close> denotes.
\<close>

function correlate_fp ::
  "(real \<Rightarrow> real) \<Rightarrow> real list \<Rightarrow> int \<Rightarrow> int \<Rightarrow> int \<Rightarrow> real \<times> real \<times> real
     \<Rightarrow> (real \<times> real \<times> real) option" where
  "correlate_fp rnd buffer MAX_SAMPLES offset i (sm, sumSq1, sumSq2) =
     (if i < MAX_SAMPLES - offset then
        (case js_index buffer i of
           None \<Rightarrow> None
         | Some val1 \<Rightarrow>
            (case js_index buffer (i + offset) of
               None \<Rightarrow> None
             | Some val2 \<Rightarrow>
                correlate_fp rnd buffer MAX_SAMPLES offset (i + 1)
                  (rnd (sm + rnd (val1 * val2)),
                   rnd (sumSq1 + rnd (val1 * val1)),
                   rnd (sumSq2 + rnd (val2 * val2)))))
      else Some (sm, sumSq1, sumSq2))"
  by pat_completeness auto
termination
  by (relation "measure (\<lambda>(rnd, buffer, MAX_SAMPLES, offset, i, acc). nat (MAX_SAMPLES - offset - i))") auto

declare correlate_fp.simps [simp del]

function scan_fp ::
  "(real \<Rightarrow> real) \<Rightarrow> real list \<Rightarrow> int \<Rightarrow> int \<Rightarrow> int \<Rightarrow> int \<times> real \<Rightarrow> (int \<times> real) option" where
  "scan_fp rnd buffer MAX_SAMPLES bound offset (bestOffset, bestCorrelation) =
     (if offset < bound then
        (case correlate_fp rnd buffer MAX_SAMPLES offset 0 (0, 0, 0) of
           None \<Rightarrow> None
         | Some (sm, sumSq1, sumSq2) \<Rightarrow>
            (case fp_sqrt rnd (rnd (sumSq1 * sumSq2)) of
               None \<Rightarrow> None
             | Some nrm \<Rightarrow>
                if nrm > 0 then
                  (case fp_div rnd sm nrm of
                     None \<Rightarrow> None
                   | Some corr \<Rightarrow>
                      if corr > bestCorrelation
                      then scan_fp rnd buffer MAX_SAMPLES bound (offset + 1) (offset, corr)
                      else scan_fp rnd buffer MAX_SAMPLES bound (offset + 1) (bestOffset, bestCorrelation))
                else scan_fp rnd buffer MAX_SAMPLES bound (offset + 1) (bestOffset, bestCorrelation)))
      else Some (bestOffset, bestCorrelation))"
  by pat_completeness auto
termination
  by (relation "measure (\<lambda>(rnd, buffer, MAX_SAMPLES, bound, offset, best). nat (bound - offset))") auto

declare scan_fp.simps [simp del]

definition autoCorrelate_fp :: "(real \<Rightarrow> real) \<Rightarrow> real list \<Rightarrow> real \<Rightarrow> real option" where
  "autoCorrelate_fp rnd buffer sampleRate =
     (let SIZE = int (length buffer);
          MAX_SAMPLES = SIZE div 2;
          minPeriod = \<lfloor>rnd (sampleRate / 400)\<rfloor>;
          maxPeriod = \<lfloor>rnd (sampleRate / 80)\<rfloor>
      in case scan_fp rnd buffer MAX_SAMPLES (min MAX_SAMPLES maxPeriod) minPeriod (-1, -1) of
           None \<Rightarrow> None
         | Some (bestOffset, bestCorrelation) \<Rightarrow>
            if bestCorrelation > rnd 0.2 \<and> bestOffset > 0
            then fp_div rnd sampleRate (real_of_int bestOffset)
            else Some (-1))"

text \<open>
  \<open>getNoteFromFrequency\<close> likewise; \<open>log2\<close> is the value \<open>Math.log2\<close> returns on a positive
  double. \<open>Math.round\<close> and \<open>Math.floor\<close> are exact.
\<close>

definition getNoteFromFrequency_fp ::
  "(real \<Rightarrow> real) \<Rightarrow> (real \<Rightarrow> real) \<Rightarrow> real \<Rightarrow> note_info option" where
  "getNoteFromFrequency_fp rnd log2 f =
     (let ratio = rnd (f / A4_FREQ)
      in if 0 < ratio then
           (let midiNote = rnd (rnd (12 * log2 ratio) + A4_MIDI);
                roundedMidi = round midiNote;
                cents = round (rnd (rnd (midiNote - real_of_int roundedMidi) * 100));
                noteIndex = js_rem (js_rem roundedMidi 12 + 12) 12;
                octave = \<lfloor>rnd (real_of_int roundedMidi / 12)\<rfloor> - 1
            in case js_index NOTE_NAMES noteIndex of
                 None \<Rightarrow> None
               | Some name \<Rightarrow>
                  Some \<lparr>noteName = name, noteOctave = octave, midi = roundedMidi,
                        cents = cents, frequency = f\<rparr>)
         else None)"

section \<open>The scan in double precision as the specification words it\<close>

text \<open>
  The three sums of a lag, accumulated in the order of the index, the denominator, the
  normalized correlation, the candidate lags and the estimate, each result rounded.
\<close>

definition lag_sums_fp :: "(real \<Rightarrow> real) \<Rightarrow> real list \<Rightarrow> int \<Rightarrow> real \<times> real \<times> real" where
  "lag_sums_fp rnd buffer offset =
     foldl (\<lambda>(sm, e1, e2) i.
               (rnd (sm + rnd (buffer ! i * buffer ! (i + nat offset))),
                rnd (e1 + rnd (buffer ! i * buffer ! i)),
                rnd (e2 + rnd (buffer ! (i + nat offset) * buffer ! (i + nat offset)))))
       (0, 0, 0) [0..<nat (int (length buffer) div 2 - offset)]"

definition denominator_fp :: "(real \<Rightarrow> real) \<Rightarrow> real list \<Rightarrow> int \<Rightarrow> real" where
  "denominator_fp rnd buffer offset =
     (case lag_sums_fp rnd buffer offset of (sm, e1, e2) \<Rightarrow> rnd (sqrt (rnd (e1 * e2))))"

definition correlation_fp :: "(real \<Rightarrow> real) \<Rightarrow> real list \<Rightarrow> int \<Rightarrow> real" where
  "correlation_fp rnd buffer offset =
     (case lag_sums_fp rnd buffer offset of
        (sm, e1, e2) \<Rightarrow> rnd (sm / rnd (sqrt (rnd (e1 * e2)))))"

definition lags_fp :: "(real \<Rightarrow> real) \<Rightarrow> real list \<Rightarrow> real \<Rightarrow> int list" where
  "lags_fp rnd buffer sampleRate =
     [\<lfloor>rnd (sampleRate / 400)\<rfloor>..min (int (length buffer) div 2) \<lfloor>rnd (sampleRate / 80)\<rfloor> - 1]"

definition estimate_fp :: "(real \<Rightarrow> real) \<Rightarrow> real list \<Rightarrow> real \<Rightarrow> real" where
  "estimate_fp rnd buffer sampleRate =
     (case first_max (correlation_fp rnd buffer)
             (filter (\<lambda>lag. denominator_fp rnd buffer lag \<noteq> 0) (lags_fp rnd buffer sampleRate)) of
        None \<Rightarrow> -1
      | Some bestLag \<Rightarrow>
         if correlation_fp rnd buffer bestLag > rnd 0.2 \<and> bestLag > 0
         then rnd (sampleRate / real_of_int bestLag)
         else -1)"

section \<open>Properties of \<open>autoCorrelate\<close>\<close>

subsection \<open>The inner loop computes the three sums\<close>

lemma correlate_sums:
  assumes "0 \<le> offset" "0 \<le> i" "M \<le> int (length buffer)"
  shows "correlate buffer M offset i (sm, q1, q2) =
     Some (sm + (\<Sum>k\<leftarrow>[nat i..<nat (M - offset)]. buffer ! k * buffer ! (k + nat offset)),
           q1 + (\<Sum>k\<leftarrow>[nat i..<nat (M - offset)]. buffer ! k * buffer ! k),
           q2 + (\<Sum>k\<leftarrow>[nat i..<nat (M - offset)]. buffer ! (k + nat offset) * buffer ! (k + nat offset)))"
  using assms
proof (induction buffer M offset i "(sm, q1, q2)" arbitrary: sm q1 q2 rule: correlate.induct)
  case (1 buffer M offset i sm q1 q2)
  show ?case
  proof (cases "i < M - offset")
    case False
    then show ?thesis by (simp add: correlate.simps)
  next
    case True
    have r1: "js_index buffer i = Some (buffer ! nat i)"
      using True 1(2,3,4) by (simp add: js_index_def)
    have r2: "js_index buffer (i + offset) = Some (buffer ! (nat i + nat offset))"
      using True 1(2,3,4) by (simp add: js_index_def nat_add_distrib)
    have up: "[nat i..<nat (M - offset)] = nat i # [nat (i + 1)..<nat (M - offset)]"
      using True 1(3) by (simp add: upt_conv_Cons nat_add_distrib)
    have "correlate buffer M offset i (sm, q1, q2) =
       correlate buffer M offset (i + 1)
         (sm + buffer ! nat i * buffer ! (nat i + nat offset),
          q1 + buffer ! nat i * buffer ! nat i,
          q2 + buffer ! (nat i + nat offset) * buffer ! (nat i + nat offset))"
      using True r1 r2 by (subst correlate.simps) simp
    also have "\<dots> = Some (sm + (\<Sum>k\<leftarrow>[nat i..<nat (M - offset)]. buffer ! k * buffer ! (k + nat offset)),
           q1 + (\<Sum>k\<leftarrow>[nat i..<nat (M - offset)]. buffer ! k * buffer ! k),
           q2 + (\<Sum>k\<leftarrow>[nat i..<nat (M - offset)]. buffer ! (k + nat offset) * buffer ! (k + nat offset)))"
      using 1(1)[OF True r1 r2] 1(2,3,4) up by (simp add: algebra_simps)
    finally show ?thesis .
  qed
qed

lemma correlate_lag_sums:
  assumes "0 \<le> offset"
  shows "correlate buffer (int (length buffer) div 2) offset 0 (0, 0, 0) = Some (lag_sums buffer offset)"
proof -
  have "int (length buffer) div 2 \<le> int (length buffer)" by simp
  from correlate_sums [OF assms _ this, of 0 0 0 0] show ?thesis
    by (simp add: lag_sums_def Let_def)
qed

lemma sum_list_squares_nonneg: "0 \<le> (\<Sum>k\<leftarrow>ks. (g k :: real) * g k)"
  by (induction ks) simp_all

subsection \<open>The outer loop tracks the first maximum\<close>

lemma scan_empty: "\<not> offset < bound \<Longrightarrow> scan buffer M bound offset best = Some best"
  by (cases best) (simp add: scan.simps)

lemma scan_first_max:
  assumes "0 \<le> offset" "M = int (length buffer) div 2"
  shows "scan buffer M bound offset (bo, bc) =
     Some (case first_max (correlation buffer)
                  (filter (\<lambda>k. denominator buffer k \<noteq> 0) [offset..bound - 1]) of
             None \<Rightarrow> (bo, bc)
           | Some b \<Rightarrow> if correlation buffer b > bc then (b, correlation buffer b) else (bo, bc))"
  using assms
proof (induction buffer M bound offset "(bo, bc)" arbitrary: bo bc rule: scan.induct)
  case (1 buffer M bound offset bo bc)
  show ?case
  proof (cases "offset < bound")
    case False
    then show ?thesis by (simp add: scan.simps)
  next
    case True
    obtain sm e1 e2 where ls: "lag_sums buffer offset = (sm, e1, e2)"
      by (cases "lag_sums buffer offset") auto
    have c: "correlate buffer M offset 0 (0, 0, 0) = Some (sm, e1, e2)"
      using correlate_lag_sums [of offset buffer] 1(4,5) ls by simp
    have "0 \<le> e1" "0 \<le> e2"
      using ls sum_list_squares_nonneg [of "\<lambda>k. buffer ! k"]
        sum_list_squares_nonneg [of "\<lambda>k. buffer ! (k + nat offset)"]
      by (auto simp: lag_sums_def Let_def)
    then have nn: "\<not> e1 * e2 < 0" by (simp add: mult_nonneg_nonneg not_less)
    have sq: "js_sqrt (e1 * e2) = Some (denominator buffer offset)"
      using nn by (simp add: js_sqrt_def denominator_def ls)
    have dn: "0 \<le> denominator buffer offset"
      using nn by (simp add: denominator_def ls)
    have up: "[offset..bound - 1] = offset # [offset + 1..bound - 1]"
      using True by (simp add: upto_rec1)
    have o1: "0 \<le> offset + 1" using 1(4) by simp
    show ?thesis
    proof (cases "denominator buffer offset > 0")
      case False
      then have z: "denominator buffer offset = 0" using dn by simp
      have "scan buffer M bound offset (bo, bc) = scan buffer M bound (offset + 1) (bo, bc)"
        using True c sq z by (subst scan.simps) simp
      then show ?thesis
        using 1(3)[OF True c refl refl sq _ o1 1(5)] z up False by simp
    next
      case pos: True
      have dv: "js_div sm (denominator buffer offset) = Some (correlation buffer offset)"
        using pos by (auto simp: js_div_def correlation_def denominator_def ls)
      show ?thesis
      proof (cases "correlation buffer offset > bc")
        case gt: True
        have "scan buffer M bound offset (bo, bc) =
              scan buffer M bound (offset + 1) (offset, correlation buffer offset)"
          using True c sq pos dv gt by (subst scan.simps) simp
        then show ?thesis
          using 1(1)[OF True c refl refl sq pos dv gt o1 1(5)] up pos gt
          by (auto split: option.splits)
      next
        case le: False
        have "scan buffer M bound offset (bo, bc) = scan buffer M bound (offset + 1) (bo, bc)"
          using True c sq pos dv le by (subst scan.simps) simp
        then show ?thesis
          using 1(2)[OF True c refl refl sq pos dv le o1 1(5)] up pos le
          by (auto split: option.splits)
      qed
    qed
  qed
qed

lemma lags_bounds:
  assumes "k \<in> set (lags buffer sampleRate)"
  shows "0 \<le> k" "k < int (length buffer) div 2" "0 < sampleRate" "real_of_int k < sampleRate / 80"
proof -
  from assms have lo: "\<lfloor>sampleRate / 400\<rfloor> \<le> k" and hi: "k < \<lfloor>sampleRate / 80\<rfloor>"
    and hi2: "k < int (length buffer) div 2"
    by (auto simp: lags_def)
  show "k < int (length buffer) div 2" by (rule hi2)
  from lo hi have "\<lfloor>sampleRate / 400\<rfloor> < \<lfloor>sampleRate / 80\<rfloor>" by simp
  then have "sampleRate / 400 < sampleRate / 80"
    by (meson floor_less_cancel)
  then show pos: "0 < sampleRate" by simp
  then have "0 \<le> \<lfloor>sampleRate / 400\<rfloor>" by simp
  with lo show "0 \<le> k" by linarith
  from hi show "real_of_int k < sampleRate / 80" by linarith
qed

lemma first_max_mem: "first_max f xs = Some b \<Longrightarrow> b \<in> set xs"
  by (induction xs arbitrary: b) (auto split: option.splits if_splits)

lemma first_max_None: "first_max f xs = None \<longleftrightarrow> xs = []"
  by (cases xs) (auto split: option.splits)

lemma first_max_greatest: "first_max f xs = Some b \<Longrightarrow> x \<in> set xs \<Longrightarrow> f x \<le> f b"
  by (induction xs arbitrary: b) (fastforce split: option.splits if_splits simp: first_max_None)+

lemma first_max_first:
  "first_max f (ys @ b # zs) = Some b \<Longrightarrow> b \<notin> set ys \<Longrightarrow> y \<in> set ys \<Longrightarrow> f y < f b"
proof (induction ys arbitrary: y)
  case Nil
  then show ?case by simp
next
  case (Cons a ys)
  from Cons.prems(2) have ab: "a \<noteq> b" and nb: "b \<notin> set ys" by auto
  from Cons.prems(1) ab have r: "first_max f (ys @ b # zs) = Some b" and lt: "f a < f b"
    by (auto split: option.splits if_splits)
  show ?case
  proof (cases "y = a")
    case True
    with lt show ?thesis by simp
  next
    case False
    with Cons.prems(3) have "y \<in> set ys" by simp
    from Cons.IH [OF r nb this] show ?thesis .
  qed
qed

lemma autoCorrelate_estimate:
  "autoCorrelate buffer sampleRate = Some (estimate_spec buffer sampleRate)"
proof (cases "lags buffer sampleRate = []")
  case True
  then have "\<not> \<lfloor>sampleRate / 400\<rfloor> < min (int (length buffer) div 2) \<lfloor>sampleRate / 80\<rfloor>"
    by (auto simp: lags_def)
  then have "scan buffer (int (length buffer) div 2) (min (int (length buffer) div 2) \<lfloor>sampleRate / 80\<rfloor>)
               \<lfloor>sampleRate / 400\<rfloor> (-1, -1) = Some (-1, -1)"
    by (rule scan_empty)
  then show ?thesis
    using True by (simp add: autoCorrelate_def estimate_spec_def Let_def)
next
  case False
  then obtain k where k: "k \<in> set (lags buffer sampleRate)"
    by (cases "lags buffer sampleRate") auto
  from lags_bounds(3)[OF k] have "0 \<le> \<lfloor>sampleRate / 400\<rfloor>" by simp
  from scan_first_max [OF this refl, of buffer "min (int (length buffer) div 2) \<lfloor>sampleRate / 80\<rfloor>" "-1" "-1"]
  have sc: "scan buffer (int (length buffer) div 2) (min (int (length buffer) div 2) \<lfloor>sampleRate / 80\<rfloor>)
               \<lfloor>sampleRate / 400\<rfloor> (-1, -1) =
        Some (case first_max (correlation buffer)
                  (filter (\<lambda>k. denominator buffer k \<noteq> 0) (lags buffer sampleRate)) of
             None \<Rightarrow> (-1, -1)
           | Some b \<Rightarrow> if correlation buffer b > -1 then (b, correlation buffer b) else (-1, -1))"
    by (simp add: lags_def)
  show ?thesis
    unfolding autoCorrelate_def estimate_spec_def Let_def sc
    by (auto split: option.splits simp: js_div_def)
qed

lemma first_max_filter_upto:
  assumes "first_max f (filter P ([lo..b - 1] @ b # [b + 1..hi])) = Some b"
    and "lo \<le> k" "k < b" "P k"
  shows "f k < f b"
proof -
  have "P b" using first_max_mem [OF assms(1)] unfolding set_filter by blast
  then have eq: "filter P ([lo..b - 1] @ b # [b + 1..hi]) = filter P [lo..b - 1] @ b # filter P [b + 1..hi]"
    by simp
  have "b \<notin> set (filter P [lo..b - 1])" by simp
  moreover have "k \<in> set (filter P [lo..b - 1])" using assms(2-4) by simp
  ultimately show ?thesis
    using first_max_first [of f "filter P [lo..b - 1]" b "filter P [b + 1..hi]" k] assms(1) eq
    by simp
qed

lemma estimate_spec_range:
  "estimate_spec buffer sampleRate = -1 \<or> 0 < estimate_spec buffer sampleRate"
proof (cases "first_max (correlation buffer)
                (filter (\<lambda>lag. denominator buffer lag \<noteq> 0) (lags buffer sampleRate))")
  case None
  then show ?thesis by (simp add: estimate_spec_def)
next
  case (Some b)
  from first_max_mem [OF Some] have "b \<in> set (lags buffer sampleRate)" by simp
  from lags_bounds(3) [OF this] have "0 < sampleRate" .
  then show ?thesis using Some by (simp add: estimate_spec_def)
qed

lemma autoCorrelate_found_positive:
  "autoCorrelate buffer sampleRate = Some f \<Longrightarrow> f \<noteq> -1 \<Longrightarrow> 0 < f"
  using estimate_spec_range [of buffer sampleRate] by (simp add: autoCorrelate_estimate)

text \<open>
  Claim C10. \<open>autoCorrelate\<close> never reads outside the buffer, never takes the square
  root of a negative number and never divides by zero (each of these is \<open>None\<close> in the
  model): on every buffer and sampling rate it returns a number, and that number is
  \<open>-1\<close> or positive.
\<close>

theorem autoCorrelate_total:
  "\<exists>r. autoCorrelate buffer sampleRate = Some r \<and> (r = -1 \<or> 0 < r)"
  using estimate_spec_range [of buffer sampleRate] by (simp add: autoCorrelate_estimate)

text \<open>
  At 100 Hz the only lag of a window of four samples is 0; it correlates perfectly and is
  refused for not being positive. At 0 Hz, and on an empty window, no lag is scanned.
\<close>

lemma four_ones_lag: "lags [1, 1, 1, 1] 100 = [0]" "lag_sums [1, 1, 1, 1] 0 = (2, 2, 2)"
  by (simp_all add: lags_def lag_sums_def upto_rec1 upt_rec Let_def)

theorem autoCorrelate_total_witness:
  "(\<exists>r. autoCorrelate [1, 1, 1, 1] 100 = Some r \<and> (r = -1 \<or> 0 < r))
   \<and> first_max (correlation [1, 1, 1, 1])
        (filter (\<lambda>lag. denominator [1, 1, 1, 1] lag \<noteq> 0) (lags [1, 1, 1, 1] 100)) = Some 0
   \<and> correlation [1, 1, 1, 1] 0 = 1
   \<and> autoCorrelate [1, 1, 1, 1] 100 = Some (-1)
   \<and> autoCorrelate [1, 1, 1, 1] 0 = Some (-1)
   \<and> autoCorrelate [] 44100 = Some (-1)"
  using autoCorrelate_total [of "[1, 1, 1, 1]" 100]
  by (simp add: autoCorrelate_estimate estimate_spec_def four_ones_lag denominator_def
        correlation_def lags_def)

lemma sum_list_zero: "\<forall>x \<in> set xs. f x = (0::real) \<Longrightarrow> (\<Sum>x\<leftarrow>xs. f x) = 0"
  by (induction xs) simp_all

lemma denominator_head_silent:
  assumes z: "\<forall>i < length buffer div 2. buffer ! i = 0" and "0 \<le> k"
  shows "denominator buffer k = 0"
proof -
  have "nat (int (length buffer) div 2 - k) \<le> length buffer div 2"
    using assms(2) by linarith
  then have "\<forall>i \<in> set [0..<nat (int (length buffer) div 2 - k)]. buffer ! i * buffer ! i = 0"
    using z by auto
  then have "(\<Sum>i\<leftarrow>[0..<nat (int (length buffer) div 2 - k)]. buffer ! i * buffer ! i) = 0"
    by (rule sum_list_zero)
  then show ?thesis by (simp add: denominator_def lag_sums_def Let_def)
qed

lemma autoCorrelate_no_score:
  assumes "\<forall>lag \<in> set (lags buffer sampleRate). denominator buffer lag = 0"
  shows "autoCorrelate buffer sampleRate = Some (-1)"
proof -
  have "filter (\<lambda>lag. denominator buffer lag \<noteq> 0) (lags buffer sampleRate) = []"
    using assms by (simp add: filter_empty_conv)
  then show ?thesis by (simp add: autoCorrelate_estimate estimate_spec_def)
qed

lemma autoCorrelate_head_silent:
  assumes "\<forall>i < length buffer div 2. buffer ! i = 0"
  shows "autoCorrelate buffer sampleRate = Some (-1)"
  using assms by (intro autoCorrelate_no_score ballI denominator_head_silent lags_bounds(1))

text \<open>
  Claim C8. On an empty window and on a window of zeros every lag of the scan has a zero
  denominator, so none is scored, and \<open>autoCorrelate\<close> returns \<open>-1\<close> whatever the
  sampling rate.
\<close>

theorem autoCorrelate_silent_window:
  assumes "buffer = [] \<or> (\<forall>x \<in> set buffer. x = 0)"
  shows "(\<forall>lag \<in> set (lags buffer sampleRate). denominator buffer lag = 0)
         \<and> autoCorrelate buffer sampleRate = Some (-1)"
proof -
  from assms have z: "\<forall>i < length buffer div 2. buffer ! i = 0" by auto
  show ?thesis
    using z by (intro conjI autoCorrelate_head_silent ballI denominator_head_silent lags_bounds(1))
qed

theorem autoCorrelate_silent_window_witness:
  "lags [0, 0, 0, 0] 400 = [1] \<and> denominator [0, 0, 0, 0] 1 = 0
   \<and> autoCorrelate [0, 0, 0, 0] 400 = Some (-1) \<and> autoCorrelate [] 400 = Some (-1)"
  using autoCorrelate_silent_window [of "[0, 0, 0, 0]" 400] autoCorrelate_silent_window [of "[]" 400]
  by (simp add: lags_def upto_rec1)

section \<open>Properties of the note mapping\<close>

lemma js_rem_wrap: "js_rem (js_rem r 12 + 12) 12 = r mod 12"
proof (cases "0 \<le> r")
  case True
  then have "js_rem r 12 = r mod 12" by (auto simp: js_rem_def sgn_if)
  moreover have "0 < r mod 12 + 12" using pos_mod_sign [of 12 r] by linarith
  ultimately show ?thesis by (simp add: js_rem_def sgn_if)
next
  case False
  then have a: "js_rem r 12 = - ((- r) mod 12)" by (simp add: js_rem_def sgn_if)
  have "0 \<le> (- r) mod 12" "(- r) mod 12 < 12" by simp_all
  then have b: "0 < - ((- r) mod 12) + 12" by linarith
  have "js_rem (- ((- r) mod 12) + 12) 12 = (- ((- r) mod 12) + 12) mod 12"
    using b by (simp add: js_rem_def sgn_if)
  also have "\<dots> = r mod 12" by (simp add: mod_minus_eq)
  finally show ?thesis by (simp add: a)
qed

lemma concert_pitch:
  "getNoteFromFrequency 440 =
     Some \<lparr>noteName = ''A'', noteOctave = 4, midi = 69, cents = 0, frequency = 440\<rparr>"
proof -
  have "js_index NOTE_NAMES 9 = Some ''A''"
    by (simp add: js_index_def NOTE_NAMES_def)
  then show ?thesis
    by (simp add: getNoteFromFrequency_def js_log2_def A4_FREQ_def A4_MIDI_def Let_def js_rem_wrap)
qed



section \<open>Properties of the display and the tick\<close>

subsection \<open>When a reading is shown\<close>

lemma closest_Some:
  "0 < f \<Longrightarrow> \<forall>p \<in> set strs. 0 < freq (snd p) \<Longrightarrow> \<exists>r. closest f strs acc = Some r"
proof (induction strs arbitrary: acc)
  case Nil
  then show ?case by simp
next
  case (Cons p strs)
  obtain i s where p: "p = (i, s)" by (cases p)
  obtain cs md where acc: "acc = (cs, md)" by (cases acc)
  have "0 < freq s" using Cons.prems(2) p by simp
  then have d: "js_div f (freq s) = Some (f / freq s)" and "0 < f / freq s"
    using Cons.prems(1) by (simp_all add: js_div_def)
  then have l: "js_log2 (f / freq s) = Some (log 2 (f / freq s))"
    by (simp add: js_log2_def)
  from Cons.IH [OF Cons.prems(1)] Cons.prems(2)
  have ih: "\<And>a. \<exists>r. closest f strs a = Some r" by simp
  show ?case
    using ih by (simp add: p acc d l Let_def)
qed

lemma GUITAR_STRINGS_positive: "\<forall>p \<in> set (enumerate 0 GUITAR_STRINGS). 0 < freq (snd p)"
  by (simp add: GUITAR_STRINGS_def)

lemma GUITAR_STRINGS_index:
  "i < length GUITAR_STRINGS \<Longrightarrow>
     \<exists>str. js_index GUITAR_STRINGS (int i) = Some str \<and> 0 < freq str"
proof -
  assume a: "i < length GUITAR_STRINGS"
  then have "GUITAR_STRINGS ! i \<in> set GUITAR_STRINGS" by simp
  then have "0 < freq (GUITAR_STRINGS ! i)" by (auto simp: GUITAR_STRINGS_def)
  then show ?thesis using a by (simp add: js_index_def)
qed

lemma updateStringIndicators_Some:
  assumes "lockedStringIndex st \<noteq> None \<or> 0 < f"
  shows "\<exists>bs. updateStringIndicators f t st = Some (st\<lparr>stringButtons := bs\<rparr>)"
proof (cases "lockedStringIndex st")
  case (Some i)
  then show ?thesis by (simp add: updateStringIndicators_def) blast
next
  case None
  with assms have "0 < f" by simp
  from closest_Some [OF this GUITAR_STRINGS_positive, of "(None, None)"]
  obtain cs md where "closest f (enumerate 0 GUITAR_STRINGS) (None, None) = Some (cs, md)"
    by auto
  then show ?thesis using None by (simp add: updateStringIndicators_def) blast
qed

lemma showReading_Done:
  assumes "lockedStringIndex st \<noteq> None \<or> 0 < f"
  shows "\<exists>st'. showReading c n oc f st = Done st'
           \<and> smoothedFrequency st' = smoothedFrequency st
           \<and> lockedStringIndex st' = lockedStringIndex st
           \<and> isListening st' = isListening st
           \<and> audioContext st' = audioContext st
           \<and> centsText st' = (if c \<ge> 0 then Plus c else Number c)
           \<and> (segments st \<noteq> [] \<longrightarrow> noteInTune st' = isInTune c)"
proof (cases "segments st = []")
  case True
  then show ?thesis by (simp add: showReading_def Let_def)
next
  case False
  define st1 where "st1 = st\<lparr>noteText := Text n, octaveText := Number oc, hzText := Fixed1 f,
                   centsText := (if c \<ge> 0 then Plus c else Number c)\<rparr>"
  obtain lit where sr: "showReading c n oc f st =
      (case updateStringIndicators f (isInTune c) (st1\<lparr>segments := lit, noteInTune := isInTune c\<rparr>) of
         None \<Rightarrow> NonFinite | Some st3 \<Rightarrow> Done st3)"
    using False by (simp add: showReading_def Let_def st1_def)
  have "lockedStringIndex (st1\<lparr>segments := lit, noteInTune := isInTune c\<rparr>) \<noteq> None \<or> 0 < f"
    using assms by (simp add: st1_def)
  from updateStringIndicators_Some [OF this, of "isInTune c"] obtain bs where
    "updateStringIndicators f (isInTune c) (st1\<lparr>segments := lit, noteInTune := isInTune c\<rparr>) =
       Some (st1\<lparr>segments := lit, noteInTune := isInTune c, stringButtons := bs\<rparr>)"
    by auto
  then show ?thesis
    using False by (simp add: sr st1_def)
qed

lemma getNoteFromFrequency_Some:
  assumes "0 < f"
  shows "\<exists>info. getNoteFromFrequency f = Some info"
proof -
  define m where "m = 12 * log 2 (f / 440) + 69"
  have l: "js_log2 (f / A4_FREQ) = Some (log 2 (f / 440))"
    using assms by (simp add: js_log2_def A4_FREQ_def)
  have "0 \<le> round m mod 12" "round m mod 12 < 12" by simp_all
  then have ix: "js_index NOTE_NAMES (round m mod 12) = Some (NOTE_NAMES ! nat (round m mod 12))"
    by (simp add: js_index_def NOTE_NAMES_def)
  then show ?thesis
    by (simp add: getNoteFromFrequency_def l Let_def A4_MIDI_def js_rem_wrap m_def)
qed

lemma getNoteFromFrequency_positive: "getNoteFromFrequency f = Some info \<Longrightarrow> 0 < f"
  by (auto simp: getNoteFromFrequency_def js_log2_def A4_FREQ_def split: if_splits)

lemma updateDisplay_Done:
  assumes "0 < f" "\<forall>i. lockedStringIndex st = Some i \<longrightarrow> i < length GUITAR_STRINGS"
  shows "\<exists>st'. updateDisplay f st = Done st'
           \<and> smoothedFrequency st' = smoothedFrequency st
           \<and> lockedStringIndex st' = lockedStringIndex st
           \<and> isListening st' = isListening st
           \<and> audioContext st' = audioContext st"
proof (cases "lockedStringIndex st")
  case None
  from getNoteFromFrequency_Some [OF assms(1)] obtain info where
    i: "getNoteFromFrequency f = Some info" ..
  from showReading_Done [of st f "cents info" "noteName info" "noteOctave info"] assms(1)
  show ?thesis using None i by (auto simp: updateDisplay_def)
next
  case (Some i)
  with assms(2) have "i < length GUITAR_STRINGS" by simp
  from GUITAR_STRINGS_index [OF this] obtain str where
    s: "js_index GUITAR_STRINGS (int i) = Some str" "0 < freq str" by auto
  have lc: "lockedCents f (freq str) = Some (round (1200 * log 2 (f / freq str)))"
    using assms(1) s(2) by (simp add: lockedCents_def js_div_def js_log2_def)
  from showReading_Done [of st f "round (1200 * log 2 (f / freq str))" "stringNote str" "stringOctave str"]
  show ?thesis using Some s lc assms(1) by (auto simp: updateDisplay_def)
qed

subsection \<open>The branches of a tick\<close>




lemma detectPitch_with_found:
  assumes "isListening st" "rms buffer = Some r" "MIN_VOLUME < r"
    "audioContext st = Some sampleRate" "estimator buffer sampleRate = Some f" "f \<noteq> -1"
  shows "detectPitch_with estimator buffer handle st =
           (case updateDisplay (smooth (smoothedFrequency st) f)
                   (st\<lparr>smoothedFrequency := Some (smooth (smoothedFrequency st) f)\<rparr>) of
              Done st2 \<Rightarrow> Done (st2\<lparr>animationId := Some handle\<rparr>)
            | TypeError st2 \<Rightarrow> TypeError st2
            | NonFinite \<Rightarrow> NonFinite)"
  using assms by (simp add: detectPitch_with_def Let_def)




subsection \<open>The example windows\<close>

lemma sum_list_ones: "\<forall>x \<in> set xs. g x = (1::real) \<Longrightarrow> (\<Sum>x\<leftarrow>xs. g x) = real (length xs)"
  by (induction xs) simp_all

lemma hum_lag_sums:
  assumes "0 \<le> k" "k < 2048"
  shows "lag_sums hum k = (real (nat (2048 - k)), real (nat (2048 - k)), real (nat (2048 - k)))"
proof -
  have one: "\<forall>i \<in> set [0..<nat (2048 - k)]. hum ! i = 1 \<and> hum ! (i + nat k) = 1"
    using assms by (auto simp: hum_def)
  have "(\<Sum>i\<leftarrow>[0..<nat (2048 - k)]. hum ! i * hum ! (i + nat k)) = real (length [0..<nat (2048 - k)])"
    "(\<Sum>i\<leftarrow>[0..<nat (2048 - k)]. hum ! i * hum ! i) = real (length [0..<nat (2048 - k)])"
    "(\<Sum>i\<leftarrow>[0..<nat (2048 - k)]. hum ! (i + nat k) * hum ! (i + nat k)) = real (length [0..<nat (2048 - k)])"
    using one by (intro sum_list_ones; simp)+
  moreover have "int (length hum) div 2 = 2048" by (simp add: hum_def)
  ultimately show ?thesis by (simp add: lag_sums_def Let_def)
qed

lemma hum_correlation:
  assumes "0 \<le> k" "k < 2048"
  shows "denominator hum k \<noteq> 0" "correlation hum k = 1"
proof -
  have "0 < real (nat (2048 - k))" using assms by simp
  then show "denominator hum k \<noteq> 0" "correlation hum k = 1"
    by (simp_all add: denominator_def correlation_def hum_lag_sums [OF assms] real_sqrt_abs2)
qed

lemma first_max_head: "\<forall>y \<in> set xs. f y \<le> f x \<Longrightarrow> first_max f (x # xs) = Some x"
  using first_max_mem [of f xs] by (fastforce split: option.splits)

lemma hum_estimate: "autoCorrelate hum 44100 = Some (4410 / 11)"
proof -
  have "lags hum 44100 = [110..550]"
    by (simp add: lags_def hum_def del: upto_rec_numeral)
  moreover have "[110..550] = 110 # [110 + 1..550]" by (rule upto_rec1) simp
  ultimately obtain rest where l: "lags hum 44100 = 110 # rest" by simp
  have in_range: "0 \<le> k \<and> k < 2048" if "k \<in> set (lags hum 44100)" for k
    using lags_bounds(1,2) [OF that] by (simp add: hum_def)
  then have c: "denominator hum k \<noteq> 0 \<and> correlation hum k = 1" if "k \<in> set (lags hum 44100)" for k
    using that hum_correlation [of k] by simp
  then have "filter (\<lambda>lag. denominator hum lag \<noteq> 0) (lags hum 44100) = lags hum 44100"
    by (simp only: filter_id_conv) simp
  moreover have "first_max (correlation hum) (110 # rest) = Some 110"
    using c by (intro first_max_head) (simp add: l)
  moreover have "correlation hum 110 = 1" using c [of 110] by (simp add: l)
  ultimately show ?thesis
    by (simp add: autoCorrelate_estimate estimate_spec_def l)
qed

lemma hum_rms: "rms hum = Some 1"
  by (simp add: rms_def hum_def js_div_def js_sqrt_def sum_list_replicate)





subsection \<open>Smoothing over ticks\<close>

lemma smooth_step: "smooth sm f = (case sm of None \<Rightarrow> f | Some s \<Rightarrow> f + 0.8 * (s - f))"
  by (cases sm) (simp_all add: smooth_def EMA_ALPHA_def field_simps)

lemma smooth_positive:
  "0 < f \<Longrightarrow> \<forall>s. sm = Some s \<longrightarrow> 0 < s \<Longrightarrow> 0 < smooth sm f"
  by (cases sm) (simp_all add: smooth_def EMA_ALPHA_def add_pos_pos)

lemma tick_found:
  assumes "isListening st" "audioContext st = Some sampleRate"
    and "rms buffer = Some r" "MIN_VOLUME < r"
    and "autoCorrelate buffer sampleRate = Some f" "f \<noteq> -1"
    and "\<forall>i. lockedStringIndex st = Some i \<longrightarrow> i < length GUITAR_STRINGS"
    and "\<forall>s. smoothedFrequency st = Some s \<longrightarrow> 0 < s"
  shows "\<exists>st'. detectPitch buffer handle st = Done st'
           \<and> smoothedFrequency st' = Some (smooth (smoothedFrequency st) f)
           \<and> isListening st' \<and> audioContext st' = Some sampleRate
           \<and> lockedStringIndex st' = lockedStringIndex st"
proof -
  have "0 < f" using assms(5,6) by (rule autoCorrelate_found_positive)
  then have p: "0 < smooth (smoothedFrequency st) f" using assms(8) by (rule smooth_positive)
  define st1 where "st1 = st\<lparr>smoothedFrequency := Some (smooth (smoothedFrequency st) f)\<rparr>"
  have "\<forall>i. lockedStringIndex st1 = Some i \<longrightarrow> i < length GUITAR_STRINGS"
    using assms(7) by (simp add: st1_def)
  from updateDisplay_Done [OF p this] obtain st2 where
    u: "updateDisplay (smooth (smoothedFrequency st) f) st1 = Done st2"
       "smoothedFrequency st2 = smoothedFrequency st1" "lockedStringIndex st2 = lockedStringIndex st1"
       "isListening st2 = isListening st1" "audioContext st2 = audioContext st1"
    by blast
  have "detectPitch buffer handle st = Done (st2\<lparr>animationId := Some handle\<rparr>)"
    unfolding detectPitch_def
    using detectPitch_with_found [where estimator = autoCorrelate, OF assms(1,3,4,2,5,6), of handle] u(1)
    by (simp add: st1_def)
  then show ?thesis using u(2-5) assms(1,2) by (simp add: st1_def)
qed

lemma ticks_found:
  assumes "isListening st" "audioContext st = Some sampleRate"
    and "\<forall>i. lockedStringIndex st = Some i \<longrightarrow> i < length GUITAR_STRINGS"
    and "\<forall>s. smoothedFrequency st = Some s \<longrightarrow> 0 < s"
    and "\<forall>frame \<in> set frames. (\<exists>r. rms (fst frame) = Some r \<and> MIN_VOLUME < r)
             \<and> autoCorrelate (fst frame) sampleRate = Some f"
    and "f \<noteq> -1" "frames \<noteq> []"
  shows "\<exists>st'. ticks frames st = Done st'
           \<and> smoothedFrequency st' =
               Some (case smoothedFrequency st of
                       None \<Rightarrow> f
                     | Some s \<Rightarrow> f + 0.8 ^ length frames * (s - f))"
  using assms
proof (induction frames arbitrary: st)
  case Nil
  then show ?case by simp
next
  case (Cons frame frames)
  obtain buffer handle where fr: "frame = (buffer, handle)" by (cases frame)
  from Cons.prems(5) fr obtain r where
    b: "rms buffer = Some r" "MIN_VOLUME < r" "autoCorrelate buffer sampleRate = Some f"
    by auto
  from tick_found [OF Cons.prems(1,2) b(1,2,3) Cons.prems(6,3,4), of handle] obtain st1 where
    t: "detectPitch buffer handle st = Done st1"
       "smoothedFrequency st1 = Some (smooth (smoothedFrequency st) f)"
       "isListening st1" "audioContext st1 = Some sampleRate"
       "lockedStringIndex st1 = lockedStringIndex st"
    by blast
  have "0 < f" using b(3) Cons.prems(6) by (rule autoCorrelate_found_positive)
  then have p: "0 < smooth (smoothedFrequency st) f" using Cons.prems(4) by (rule smooth_positive)
  have tk: "ticks (frame # frames) st = ticks frames st1" by (simp add: fr t(1))
  show ?case
  proof (cases "frames = []")
    case True
    then show ?thesis
      using tk t(2) by (simp add: smooth_step split: option.splits)
  next
    case False
    have "\<exists>st'. ticks frames st1 = Done st'
           \<and> smoothedFrequency st' =
               Some (case smoothedFrequency st1 of
                       None \<Rightarrow> f
                     | Some s \<Rightarrow> f + 0.8 ^ length frames * (s - f))"
      using Cons.prems(3,5,6) t(3,4,5) p False
      by (intro Cons.IH) (simp_all add: t(2))
    then show ?thesis
      using tk t(2) by (auto simp: smooth_step split: option.splits)
  qed
qed

text \<open>
  Claim C4. The smoothed frequency after a tick with a valid estimate \<open>f\<close> is \<open>f\<close> itself
  when there was none, and \<open>0.2 * f + 0.8 * smoothed\<close> otherwise, so its distance to \<open>f\<close>
  shrinks by the factor 0.8; after \<open>n\<close> such ticks in a row with the same estimate it is
  \<open>f + 0.8 ^ n * (smoothed - f)\<close>, which tends to \<open>f\<close>.
\<close>

theorem smoothing_converges:
  assumes "isListening st" "audioContext st = Some sampleRate"
    and "\<forall>i. lockedStringIndex st = Some i \<longrightarrow> i < length GUITAR_STRINGS"
    and "\<forall>s. smoothedFrequency st = Some s \<longrightarrow> 0 < s"
    and "\<forall>frame \<in> set frames. (\<exists>r. rms (fst frame) = Some r \<and> MIN_VOLUME < r)
             \<and> autoCorrelate (fst frame) sampleRate = Some f"
    and "f \<noteq> -1" "frames \<noteq> []"
  shows "smooth None f = f
         \<and> smooth (Some s) f = 0.2 * f + 0.8 * s
         \<and> \<bar>smooth (Some s) f - f\<bar> = 0.8 * \<bar>s - f\<bar>
         \<and> (\<exists>st'. ticks frames st = Done st'
               \<and> smoothedFrequency st' =
                   Some (case smoothedFrequency st of
                           None \<Rightarrow> f
                         | Some s0 \<Rightarrow> f + 0.8 ^ length frames * (s0 - f))
               \<and> (case smoothedFrequency st of
                           None \<Rightarrow> smoothedFrequency st' = Some f
                         | Some s0 \<Rightarrow> \<bar>the (smoothedFrequency st') - f\<bar> = 0.8 ^ length frames * \<bar>s0 - f\<bar>))
         \<and> (\<lambda>n. f + 0.8 ^ n * (s - f)) \<longlonglongrightarrow> f"
proof (intro conjI)
  show "smooth None f = f" by (simp add: smooth_def)
  show "smooth (Some s) f = 0.2 * f + 0.8 * s" by (simp add: smooth_def EMA_ALPHA_def)
  have "smooth (Some s) f - f = 0.8 * (s - f)" by (simp add: smooth_step)
  then have "\<bar>smooth (Some s) f - f\<bar> = \<bar>0.8 * (s - f)\<bar>" by (rule arg_cong)
  also have "\<dots> = \<bar>0.8\<bar> * \<bar>s - f\<bar>" by (rule abs_mult)
  also have "\<dots> = 0.8 * \<bar>s - f\<bar>" by simp
  finally show "\<bar>smooth (Some s) f - f\<bar> = 0.8 * \<bar>s - f\<bar>" .
  from ticks_found [OF assms] obtain st' where
    t: "ticks frames st = Done st'"
       "smoothedFrequency st' =
          Some (case smoothedFrequency st of None \<Rightarrow> f | Some s0 \<Rightarrow> f + 0.8 ^ length frames * (s0 - f))"
    by blast
  then show "\<exists>st'. ticks frames st = Done st'
               \<and> smoothedFrequency st' =
                   Some (case smoothedFrequency st of
                           None \<Rightarrow> f
                         | Some s0 \<Rightarrow> f + 0.8 ^ length frames * (s0 - f))
               \<and> (case smoothedFrequency st of
                           None \<Rightarrow> smoothedFrequency st' = Some f
                         | Some s0 \<Rightarrow> \<bar>the (smoothedFrequency st') - f\<bar> = 0.8 ^ length frames * \<bar>s0 - f\<bar>)"
    by (auto simp: abs_mult split: option.splits)
  have lim: "(\<lambda>n. (0.8 :: real) ^ n) \<longlonglongrightarrow> 0" by (rule LIMSEQ_realpow_zero) simp_all
  have "(\<lambda>n. f + 0.8 ^ n * (s - f)) \<longlonglongrightarrow> f + 0 * (s - f)"
    by (intro tendsto_add tendsto_mult tendsto_const lim)
  then show "(\<lambda>n. f + 0.8 ^ n * (s - f)) \<longlonglongrightarrow> f" by simp
qed

theorem smoothing_converges_witness:
  "\<exists>st'. ticks [(hum, 2), (hum, 3)] playing = Done st'
      \<and> smoothedFrequency st' = Some (4410 / 11 + 0.8 ^ 2 * (110 - 4410 / 11))"
proof -
  have a: "isListening playing" "audioContext playing = Some 44100"
    "\<forall>i. lockedStringIndex playing = Some i \<longrightarrow> i < length GUITAR_STRINGS"
    "\<forall>s. smoothedFrequency playing = Some s \<longrightarrow> 0 < s"
    by (simp_all add: playing_def page_def)
  have b: "\<forall>frame \<in> set [(hum, 2::nat), (hum, 3)]. (\<exists>r. rms (fst frame) = Some r \<and> MIN_VOLUME < r)
             \<and> autoCorrelate (fst frame) 44100 = Some (4410 / 11)"
    by (simp add: hum_rms hum_estimate MIN_VOLUME_def)
  have c: "(4410 / 11 :: real) \<noteq> -1" "[(hum, 2::nat), (hum, 3)] \<noteq> []" by simp_all
  from smoothing_converges [OF a b c, of 0] obtain st' where
    t: "ticks [(hum, 2), (hum, 3)] playing = Done st'"
       "smoothedFrequency st' =
          Some (case smoothedFrequency playing of
                  None \<Rightarrow> 4410 / 11
                | Some s0 \<Rightarrow> 4410 / 11 + 0.8 ^ length [(hum, 2::nat), (hum, 3)] * (s0 - 4410 / 11))"
    by blast
  have "smoothedFrequency playing = Some 110" by (simp add: playing_def page_def)
  with t(2) have "smoothedFrequency st' = Some (4410 / 11 + 0.8 ^ 2 * (110 - 4410 / 11))"
    by (simp add: power2_eq_square)
  with t(1) show ?thesis by blast
qed

subsection \<open>A tick without a pitch\<close>




subsection \<open>The in-tune test\<close>

text \<open>
  Claim C5. The deviation shown is in tune exactly when its absolute value is at most 5:
  5 and -5 are in tune, 6 and -6 are not. With a nonempty meter, \<open>updateDisplay\<close> marks
  the note in tune by this test on the unclamped deviation, the one it writes as text: in
  locked mode the deviation from the locked string, in free mode the cents of the nearest
  note.
\<close>

theorem in_tune_threshold:
  assumes "segments st \<noteq> []"
  shows "isInTune 5 \<and> isInTune (-5) \<and> \<not> isInTune 6 \<and> \<not> isInTune (-6)
         \<and> (\<forall>c. isInTune c = (\<bar>c\<bar> \<le> 5))
         \<and> (\<forall>i str c. lockedStringIndex st = Some i \<longrightarrow>
                js_index GUITAR_STRINGS (int i) = Some str \<longrightarrow>
                lockedCents f (freq str) = Some c \<longrightarrow>
                (\<exists>st'. updateDisplay f st = Done st'
                       \<and> noteInTune st' = (\<bar>c\<bar> \<le> 5)
                       \<and> centsText st' = (if c \<ge> 0 then Plus c else Number c)))
         \<and> (\<forall>info. lockedStringIndex st = None \<longrightarrow>
                getNoteFromFrequency f = Some info \<longrightarrow>
                (\<exists>st'. updateDisplay f st = Done st'
                       \<and> noteInTune st' = (\<bar>cents info\<bar> \<le> 5)
                       \<and> centsText st' = (if cents info \<ge> 0 then Plus (cents info)
                                          else Number (cents info))))"
proof (intro conjI allI impI)
  show "isInTune 5" "isInTune (-5)" "\<not> isInTune 6" "\<not> isInTune (-6)"
    by (simp_all add: isInTune_def IN_TUNE_CENTS_def)
  show "isInTune c = (\<bar>c\<bar> \<le> 5)" for c
    by (simp add: isInTune_def IN_TUNE_CENTS_def)
next
  fix i str c
  assume a: "lockedStringIndex st = Some i" "js_index GUITAR_STRINGS (int i) = Some str"
    "lockedCents f (freq str) = Some c"
  from a(1) have "lockedStringIndex st \<noteq> None \<or> 0 < f" by simp
  from showReading_Done [OF this, of c "stringNote str" "stringOctave str"] assms
  show "\<exists>st'. updateDisplay f st = Done st'
                       \<and> noteInTune st' = (\<bar>c\<bar> \<le> 5)
                       \<and> centsText st' = (if c \<ge> 0 then Plus c else Number c)"
    using a by (auto simp: updateDisplay_def isInTune_def IN_TUNE_CENTS_def)
next
  fix info
  assume a: "lockedStringIndex st = None" "getNoteFromFrequency f = Some info"
  from getNoteFromFrequency_positive [OF a(2)] have "lockedStringIndex st \<noteq> None \<or> 0 < f" by simp
  from showReading_Done [OF this, of "cents info" "noteName info" "noteOctave info"] assms
  show "\<exists>st'. updateDisplay f st = Done st'
                       \<and> noteInTune st' = (\<bar>cents info\<bar> \<le> 5)
                       \<and> centsText st' = (if cents info \<ge> 0 then Plus (cents info)
                                          else Number (cents info))"
    using a by (auto simp: updateDisplay_def isInTune_def IN_TUNE_CENTS_def)
qed

lemma A_string:
  "js_index GUITAR_STRINGS (int 1) =
     Some \<lparr>stringNote = ''A'', stringOctave = 2, freq = 110, label = ''A''\<rparr>"
  by (simp add: js_index_def GUITAR_STRINGS_def)

lemma lockedCents_powr: "lockedCents (110 * 2 powr (real_of_int c / 1200)) 110 = Some c"
  by (simp add: lockedCents_def js_div_def js_log2_def)

theorem in_tune_threshold_witness:
  "(\<exists>st'. updateDisplay (110 * 2 powr (5 / 1200)) locked_A = Done st'
        \<and> noteInTune st' \<and> centsText st' = Plus 5)
   \<and> (\<exists>st'. updateDisplay (110 * 2 powr (6 / 1200)) locked_A = Done st'
        \<and> \<not> noteInTune st' \<and> centsText st' = Plus 6)
   \<and> (\<exists>st'. updateDisplay (110 * 2 powr (- 1200 / 1200)) locked_A = Done st'
        \<and> \<not> noteInTune st' \<and> centsText st' = Number (- 1200))
   \<and> (\<exists>st'. updateDisplay 440 playing = Done st' \<and> noteInTune st' \<and> centsText st' = Plus 0)"
proof -
  have s: "segments locked_A \<noteq> []" "segments playing \<noteq> []"
    and l: "lockedStringIndex locked_A = Some 1" "lockedStringIndex playing = None"
    by (simp_all add: locked_A_def playing_def page_def)
  have c: "lockedCents (110 * 2 powr (5 / 1200)) (freq \<lparr>stringNote = ''A'', stringOctave = 2, freq = 110, label = ''A''\<rparr>) = Some 5"
    "lockedCents (110 * 2 powr (6 / 1200)) (freq \<lparr>stringNote = ''A'', stringOctave = 2, freq = 110, label = ''A''\<rparr>) = Some 6"
    "lockedCents (110 * 2 powr (- 1200 / 1200)) (freq \<lparr>stringNote = ''A'', stringOctave = 2, freq = 110, label = ''A''\<rparr>) = Some (- 1200)"
    using lockedCents_powr [of 5] lockedCents_powr [of 6] lockedCents_powr [of "- 1200"]
    by simp_all
  from in_tune_threshold [OF s(1), of "110 * 2 powr (5 / 1200)"] l(1) A_string c(1)
  have 1: "\<exists>st'. updateDisplay (110 * 2 powr (5 / 1200)) locked_A = Done st'
        \<and> noteInTune st' \<and> centsText st' = Plus 5" by fastforce
  from in_tune_threshold [OF s(1), of "110 * 2 powr (6 / 1200)"] l(1) A_string c(2)
  have 2: "\<exists>st'. updateDisplay (110 * 2 powr (6 / 1200)) locked_A = Done st'
        \<and> \<not> noteInTune st' \<and> centsText st' = Plus 6" by fastforce
  from in_tune_threshold [OF s(1), of "110 * 2 powr (- 1200 / 1200)"] l(1) A_string c(3)
  have 3: "\<exists>st'. updateDisplay (110 * 2 powr (- 1200 / 1200)) locked_A = Done st'
        \<and> \<not> noteInTune st' \<and> centsText st' = Number (- 1200)" by fastforce
  from in_tune_threshold [OF s(2), of 440] l(2) concert_pitch
  have 4: "\<exists>st'. updateDisplay 440 playing = Done st' \<and> noteInTune st' \<and> centsText st' = Plus 0"
    by fastforce
  from 1 2 3 4 show ?thesis by blast
qed

subsection \<open>Stopping and the lock\<close>














section \<open>Properties in double precision\<close>

subsection \<open>Rounding\<close>

lemma rounding_mono: "rounding rnd \<Longrightarrow> x \<le> y \<Longrightarrow> rnd x \<le> rnd y"
  by (simp add: rounding_def)

lemma rounding_double: "rounding rnd \<Longrightarrow> double x \<Longrightarrow> rnd x = x"
  by (simp add: rounding_def)

lemma rounding_exact: "rounding (\<lambda>x. x)"
  by (simp add: rounding_def)

lemma double_of_int: "\<bar>k\<bar> < 2 ^ 53 \<Longrightarrow> double (real_of_int k)"
  unfolding double_def by (intro exI [of _ k] exI [of _ 0]) simp

lemma double_numerals:
  "double 0" "double 1" "double (- 1)" "double 50" "double (- 50)" "double 69"
  using double_of_int [of 0] double_of_int [of 1] double_of_int [of "- 1"]
    double_of_int [of 50] double_of_int [of "- 50"] double_of_int [of 69]
  by simp_all

lemma doubleI:
  "\<bar>m\<bar> < 2 ^ 53 \<Longrightarrow> - 1074 \<le> e \<Longrightarrow> e \<le> 971 \<Longrightarrow> x = real_of_int m * 2 powr real_of_int e
     \<Longrightarrow> double x"
  unfolding double_def by blast

lemma double_fractions: "double (1 / 2)" "double (- (1 / 2))" "double (23 / 4)"
proof -
  show "double (1 / 2)"
    by (rule doubleI [of 1 "- 1"]) (simp_all add: powr_minus_divide)
  show "double (- (1 / 2))"
    by (rule doubleI [of "- 1" "- 1"]) (simp_all add: powr_minus_divide)
  have "(2::real) powr 2 = 4" by (simp add: powr_numeral)
  then show "double (23 / 4)"
    by (intro doubleI [of 23 "- 2"]) (simp_all add: powr_minus_divide)
qed

lemma rounding_nonneg: "rounding rnd \<Longrightarrow> 0 \<le> x \<Longrightarrow> 0 \<le> rnd x"
  using rounding_mono [of rnd 0 x] rounding_double [of rnd 0] double_numerals(1) by simp

lemma rounding_pos_arg: "rounding rnd \<Longrightarrow> 0 < rnd x \<Longrightarrow> 0 < x"
  using rounding_mono [of rnd x 0] rounding_double [of rnd 0] double_numerals(1)
  by (cases "0 < x") simp_all

lemma rounding_neg_arg: "rounding rnd \<Longrightarrow> rnd x < 0 \<Longrightarrow> x < 0"
  using rounding_nonneg [of rnd x] by (cases "x < 0") simp_all

subsection \<open>The loops of the scan\<close>

lemma correlate_fp_fold:
  assumes "0 \<le> offset" "0 \<le> i" "M \<le> int (length buffer)"
  shows "correlate_fp rnd buffer M offset i acc =
     Some (foldl (\<lambda>(sm, e1, e2) i.
               (rnd (sm + rnd (buffer ! i * buffer ! (i + nat offset))),
                rnd (e1 + rnd (buffer ! i * buffer ! i)),
                rnd (e2 + rnd (buffer ! (i + nat offset) * buffer ! (i + nat offset)))))
            acc [nat i..<nat (M - offset)])"
  using assms
proof (induction rnd buffer M offset i acc rule: correlate_fp.induct)
  case (1 rnd buffer M offset i sm q1 q2)
  show ?case
  proof (cases "i < M - offset")
    case False
    then show ?thesis by (simp add: correlate_fp.simps)
  next
    case True
    have r1: "js_index buffer i = Some (buffer ! nat i)"
      using True 1(2,3,4) by (simp add: js_index_def)
    have r2: "js_index buffer (i + offset) = Some (buffer ! (nat i + nat offset))"
      using True 1(2,3,4) by (simp add: js_index_def nat_add_distrib)
    have up: "[nat i..<nat (M - offset)] = nat i # [nat (i + 1)..<nat (M - offset)]"
      using True 1(3) by (simp add: upt_conv_Cons nat_add_distrib)
    have "correlate_fp rnd buffer M offset i (sm, q1, q2) =
       correlate_fp rnd buffer M offset (i + 1)
         (rnd (sm + rnd (buffer ! nat i * buffer ! (nat i + nat offset))),
          rnd (q1 + rnd (buffer ! nat i * buffer ! nat i)),
          rnd (q2 + rnd (buffer ! (nat i + nat offset) * buffer ! (nat i + nat offset))))"
      using True r1 r2 by (subst correlate_fp.simps) simp
    then show ?thesis
      using 1(1)[OF True r1 r2] 1(2,3,4) by (simp add: up)
  qed
qed

lemma correlate_fp_lag_sums:
  assumes "0 \<le> offset"
  shows "correlate_fp rnd buffer (int (length buffer) div 2) offset 0 (0, 0, 0) =
           Some (lag_sums_fp rnd buffer offset)"
proof -
  have "int (length buffer) div 2 \<le> int (length buffer)" by simp
  from correlate_fp_fold [OF assms _ this, of 0 rnd "(0, 0, 0)"] show ?thesis
    by (simp add: lag_sums_fp_def)
qed

lemma fold_energies_nonneg:
  assumes "rounding rnd" "0 \<le> fst (snd acc)" "0 \<le> snd (snd acc)"
  shows "0 \<le> fst (snd (foldl (\<lambda>(sm, e1, e2) i. (rnd (g sm i), rnd (e1 + rnd (h1 i * h1 i)),
                                               rnd (e2 + rnd (h2 i * h2 i)))) acc is))
         \<and> 0 \<le> snd (snd (foldl (\<lambda>(sm, e1, e2) i. (rnd (g sm i), rnd (e1 + rnd (h1 i * h1 i)),
                                               rnd (e2 + rnd (h2 i * h2 i)))) acc is))"
  using assms(2,3)
proof (induction "is" arbitrary: acc)
  case Nil
  then show ?case by simp
next
  case (Cons i "is")
  obtain sm e1 e2 where acc: "acc = (sm, e1, e2)" by (cases acc) auto
  have "0 \<le> rnd (e1 + rnd (h1 i * h1 i))" "0 \<le> rnd (e2 + rnd (h2 i * h2 i))"
    using Cons.prems acc assms(1) by (simp_all add: rounding_nonneg)
  then show ?case
    using Cons.IH [of "(rnd (g sm i), rnd (e1 + rnd (h1 i * h1 i)), rnd (e2 + rnd (h2 i * h2 i)))"]
    by (simp add: acc)
qed

lemma lag_sums_fp_nonneg:
  assumes "rounding rnd" "lag_sums_fp rnd buffer offset = (sm, e1, e2)"
  shows "0 \<le> e1" "0 \<le> e2"
  using fold_energies_nonneg [OF assms(1), of "(0, 0, 0)"
      "\<lambda>sm i. sm + rnd (buffer ! i * buffer ! (i + nat offset))"
      "\<lambda>i. buffer ! i" "\<lambda>i. buffer ! (i + nat offset)"
      "[0..<nat (int (length buffer) div 2 - offset)]"] assms(2)
  by (simp_all add: lag_sums_fp_def)

lemma denominator_fp_nonneg:
  assumes "rounding rnd"
  shows "0 \<le> denominator_fp rnd buffer offset"
proof -
  obtain sm e1 e2 where ls: "lag_sums_fp rnd buffer offset = (sm, e1, e2)"
    by (cases "lag_sums_fp rnd buffer offset") auto
  have "0 \<le> e1 * e2" using lag_sums_fp_nonneg [OF assms ls] by simp
  then have "0 \<le> rnd (e1 * e2)" by (rule rounding_nonneg [OF assms])
  then have "0 \<le> rnd (sqrt (rnd (e1 * e2)))"
    by (intro rounding_nonneg [OF assms]) simp
  then show ?thesis by (simp add: denominator_fp_def ls)
qed

lemma scan_fp_empty: "\<not> offset < bound \<Longrightarrow> scan_fp rnd buffer M bound offset best = Some best"
  by (cases best) (simp add: scan_fp.simps)

lemma scan_fp_first_max:
  assumes "rounding rnd" "0 \<le> offset" "M = int (length buffer) div 2"
  shows "scan_fp rnd buffer M bound offset (bo, bc) =
     Some (case first_max (correlation_fp rnd buffer)
                  (filter (\<lambda>k. denominator_fp rnd buffer k \<noteq> 0) [offset..bound - 1]) of
             None \<Rightarrow> (bo, bc)
           | Some b \<Rightarrow> if correlation_fp rnd buffer b > bc then (b, correlation_fp rnd buffer b)
                       else (bo, bc))"
  using assms
proof (induction rnd buffer M bound offset "(bo, bc)" arbitrary: bo bc rule: scan_fp.induct)
  case (1 rnd buffer M bound offset bo bc)
  note r = \<open>rounding rnd\<close>
  show ?case
  proof (cases "offset < bound")
    case False
    then show ?thesis by (simp add: scan_fp.simps)
  next
    case True
    obtain sm e1 e2 where ls: "lag_sums_fp rnd buffer offset = (sm, e1, e2)"
      by (cases "lag_sums_fp rnd buffer offset") auto
    have c: "correlate_fp rnd buffer M offset 0 (0, 0, 0) = Some (sm, e1, e2)"
      using correlate_fp_lag_sums [of offset rnd buffer] 1(5,6) ls by simp
    have "0 \<le> e1 * e2" using lag_sums_fp_nonneg [OF r ls] by simp
    then have nn: "\<not> rnd (e1 * e2) < 0" using rounding_nonneg [OF r] by (simp add: not_less)
    have sq: "fp_sqrt rnd (rnd (e1 * e2)) = Some (denominator_fp rnd buffer offset)"
      using nn by (simp add: fp_sqrt_def js_sqrt_def denominator_fp_def ls)
    have dn: "0 \<le> denominator_fp rnd buffer offset" by (rule denominator_fp_nonneg [OF r])
    have up: "[offset..bound - 1] = offset # [offset + 1..bound - 1]"
      using True by (simp add: upto_rec1)
    have o1: "0 \<le> offset + 1" using 1(5) by simp
    show ?thesis
    proof (cases "denominator_fp rnd buffer offset > 0")
      case False
      then have z: "denominator_fp rnd buffer offset = 0" using dn by simp
      have "scan_fp rnd buffer M bound offset (bo, bc) = scan_fp rnd buffer M bound (offset + 1) (bo, bc)"
        using True c sq z by (subst scan_fp.simps) simp
      then show ?thesis
        using 1(3)[OF True c refl refl sq _ r o1 1(6)] z up False by simp
    next
      case pos: True
      have dv: "fp_div rnd sm (denominator_fp rnd buffer offset) = Some (correlation_fp rnd buffer offset)"
        using pos by (auto simp: fp_div_def js_div_def correlation_fp_def denominator_fp_def ls)
      show ?thesis
      proof (cases "correlation_fp rnd buffer offset > bc")
        case gt: True
        have "scan_fp rnd buffer M bound offset (bo, bc) =
              scan_fp rnd buffer M bound (offset + 1) (offset, correlation_fp rnd buffer offset)"
          using True c sq pos dv gt by (subst scan_fp.simps) simp
        then show ?thesis
          using 1(1)[OF True c refl refl sq pos dv gt r o1 1(6)] up pos gt
          by (auto split: option.splits)
      next
        case le: False
        have "scan_fp rnd buffer M bound offset (bo, bc) = scan_fp rnd buffer M bound (offset + 1) (bo, bc)"
          using True c sq pos dv le by (subst scan_fp.simps) simp
        then show ?thesis
          using 1(2)[OF True c refl refl sq pos dv le r o1 1(6)] up pos le
          by (auto split: option.splits)
      qed
    qed
  qed
qed

lemma lags_fp_bounds:
  assumes "rounding rnd" "k \<in> set (lags_fp rnd buffer sampleRate)"
  shows "0 \<le> k" "k < int (length buffer) div 2" "0 < sampleRate"
proof -
  from assms(2) have lo: "\<lfloor>rnd (sampleRate / 400)\<rfloor> \<le> k" and hi: "k < \<lfloor>rnd (sampleRate / 80)\<rfloor>"
    and hi2: "k < int (length buffer) div 2"
    by (auto simp: lags_fp_def)
  show "k < int (length buffer) div 2" by (rule hi2)
  from lo hi have "\<lfloor>rnd (sampleRate / 400)\<rfloor> < \<lfloor>rnd (sampleRate / 80)\<rfloor>" by simp
  then have lt: "rnd (sampleRate / 400) < rnd (sampleRate / 80)"
    by (meson floor_less_cancel)
  have "\<not> sampleRate / 80 \<le> sampleRate / 400"
    using rounding_mono [OF assms(1), of "sampleRate / 80" "sampleRate / 400"] lt by auto
  then show pos: "0 < sampleRate" by simp
  then have "0 \<le> rnd (sampleRate / 400)" by (intro rounding_nonneg [OF assms(1)]) simp
  then have "0 \<le> \<lfloor>rnd (sampleRate / 400)\<rfloor>" by simp
  with lo show "0 \<le> k" by linarith
qed

lemma autoCorrelate_fp_estimate:
  assumes "rounding rnd"
  shows "autoCorrelate_fp rnd buffer sampleRate = Some (estimate_fp rnd buffer sampleRate)"
proof (cases "lags_fp rnd buffer sampleRate = []")
  case True
  then have "\<not> \<lfloor>rnd (sampleRate / 400)\<rfloor> < min (int (length buffer) div 2) \<lfloor>rnd (sampleRate / 80)\<rfloor>"
    by (auto simp: lags_fp_def)
  then have "scan_fp rnd buffer (int (length buffer) div 2)
               (min (int (length buffer) div 2) \<lfloor>rnd (sampleRate / 80)\<rfloor>)
               \<lfloor>rnd (sampleRate / 400)\<rfloor> (-1, -1) = Some (-1, -1)"
    by (rule scan_fp_empty)
  then show ?thesis
    using True by (simp add: autoCorrelate_fp_def estimate_fp_def Let_def)
next
  case False
  then obtain k where k: "k \<in> set (lags_fp rnd buffer sampleRate)"
    by (cases "lags_fp rnd buffer sampleRate") auto
  from lags_fp_bounds(3) [OF assms k] have "0 \<le> rnd (sampleRate / 400)"
    by (intro rounding_nonneg [OF assms]) simp
  then have "0 \<le> \<lfloor>rnd (sampleRate / 400)\<rfloor>" by simp
  from scan_fp_first_max [OF assms this refl, of buffer
      "min (int (length buffer) div 2) \<lfloor>rnd (sampleRate / 80)\<rfloor>" "-1" "-1"]
  have sc: "scan_fp rnd buffer (int (length buffer) div 2)
               (min (int (length buffer) div 2) \<lfloor>rnd (sampleRate / 80)\<rfloor>)
               \<lfloor>rnd (sampleRate / 400)\<rfloor> (-1, -1) =
        Some (case first_max (correlation_fp rnd buffer)
                  (filter (\<lambda>k. denominator_fp rnd buffer k \<noteq> 0) (lags_fp rnd buffer sampleRate)) of
             None \<Rightarrow> (-1, -1)
           | Some b \<Rightarrow> if correlation_fp rnd buffer b > -1 then (b, correlation_fp rnd buffer b)
                       else (-1, -1))"
    by (simp add: lags_fp_def)
  have m1: "\<not> - 1 > rnd 0.2"
    using rounding_nonneg [OF assms, of "2 / 10"] by simp
  show ?thesis
    unfolding autoCorrelate_fp_def estimate_fp_def Let_def sc
    using m1 by (auto split: option.splits simp: fp_div_def js_div_def)
qed

lemma lags_fp_split:
  assumes "b \<in> set (lags_fp rnd buffer sampleRate)"
  shows "\<exists>hi. lags_fp rnd buffer sampleRate = [\<lfloor>rnd (sampleRate / 400)\<rfloor>..b - 1] @ b # [b + 1..hi]"
  using assms unfolding lags_fp_def by (auto intro!: exI upto_split3)

text \<open>
  Claim C2. In double precision, for every window whose samples lie within the range of
  single precision (no result of the scan then comes near the largest double) and every
  sampling rate, \<open>autoCorrelate\<close> returns the estimate of the specification: the lags
  scanned are those from \<open>floor(sampleRate / 400)\<close> up to, and without,
  \<open>min(floor(N / 2), floor(sampleRate / 80))\<close>; among the lags with a nonzero denominator
  the best one has the greatest correlation, and every earlier lag a strictly smaller one;
  the result is \<open>sampleRate / bestLag\<close> exactly when the best correlation exceeds 0.2 and the
  best lag is positive, and \<open>-1\<close> otherwise. Sums, products, the square root and the
  quotients are the rounded ones of the program.
\<close>

theorem autoCorrelate_fp_first_maximum:
  assumes "rounding rnd" "\<forall>x \<in> set buffer. \<bar>x\<bar> < 2 ^ 128"
  shows "autoCorrelate_fp rnd buffer sampleRate = Some (estimate_fp rnd buffer sampleRate)
   \<and> (autoCorrelate_fp rnd buffer sampleRate \<noteq> Some (-1) \<longleftrightarrow>
        (\<exists>bestLag. first_max (correlation_fp rnd buffer)
                      (filter (\<lambda>lag. denominator_fp rnd buffer lag \<noteq> 0)
                         (lags_fp rnd buffer sampleRate)) = Some bestLag
                  \<and> correlation_fp rnd buffer bestLag > rnd 0.2 \<and> bestLag > 0))
   \<and> (\<forall>bestLag. first_max (correlation_fp rnd buffer)
                    (filter (\<lambda>lag. denominator_fp rnd buffer lag \<noteq> 0)
                       (lags_fp rnd buffer sampleRate)) = Some bestLag \<longrightarrow>
          bestLag \<in> set (lags_fp rnd buffer sampleRate) \<and> denominator_fp rnd buffer bestLag > 0
          \<and> (\<forall>lag\<in>set (lags_fp rnd buffer sampleRate). denominator_fp rnd buffer lag \<noteq> 0 \<longrightarrow>
                correlation_fp rnd buffer lag \<le> correlation_fp rnd buffer bestLag
                \<and> (lag < bestLag \<longrightarrow>
                     correlation_fp rnd buffer lag < correlation_fp rnd buffer bestLag)))"
proof (intro conjI allI impI ballI)
  note r = assms(1)
  show e: "autoCorrelate_fp rnd buffer sampleRate = Some (estimate_fp rnd buffer sampleRate)"
    by (rule autoCorrelate_fp_estimate [OF r])
  show "autoCorrelate_fp rnd buffer sampleRate \<noteq> Some (-1) \<longleftrightarrow>
        (\<exists>bestLag. first_max (correlation_fp rnd buffer)
                      (filter (\<lambda>lag. denominator_fp rnd buffer lag \<noteq> 0)
                         (lags_fp rnd buffer sampleRate)) = Some bestLag
                  \<and> correlation_fp rnd buffer bestLag > rnd 0.2 \<and> bestLag > 0)"
  proof (cases "first_max (correlation_fp rnd buffer)
                      (filter (\<lambda>lag. denominator_fp rnd buffer lag \<noteq> 0)
                         (lags_fp rnd buffer sampleRate))")
    case None
    then show ?thesis by (simp add: e estimate_fp_def)
  next
    case (Some b)
    from first_max_mem [OF Some] have "b \<in> set (lags_fp rnd buffer sampleRate)" by simp
    from lags_fp_bounds(3) [OF r this] have "0 < sampleRate" .
    then have "0 < b \<Longrightarrow> 0 \<le> rnd (sampleRate / real_of_int b)"
      by (intro rounding_nonneg [OF r]) simp
    then have "0 < b \<Longrightarrow> rnd (sampleRate / real_of_int b) \<noteq> -1" by force
    then show ?thesis using Some by (auto simp: e estimate_fp_def)
  qed
next
  fix bestLag
  assume fm: "first_max (correlation_fp rnd buffer)
                    (filter (\<lambda>lag. denominator_fp rnd buffer lag \<noteq> 0)
                       (lags_fp rnd buffer sampleRate)) = Some bestLag"
  from first_max_mem [OF fm] show mem: "bestLag \<in> set (lags_fp rnd buffer sampleRate)" by simp
  from first_max_mem [OF fm] denominator_fp_nonneg [OF assms(1), of buffer bestLag]
  show "denominator_fp rnd buffer bestLag > 0" by simp
  fix lag
  assume l: "lag \<in> set (lags_fp rnd buffer sampleRate)" and d: "denominator_fp rnd buffer lag \<noteq> 0"
  from first_max_greatest [OF fm, of lag] l d
  show "correlation_fp rnd buffer lag \<le> correlation_fp rnd buffer bestLag" by simp
  assume lt: "lag < bestLag"
  from lags_fp_split [OF mem] obtain hi where
    sp: "lags_fp rnd buffer sampleRate =
           [\<lfloor>rnd (sampleRate / 400)\<rfloor>..bestLag - 1] @ bestLag # [bestLag + 1..hi]" ..
  have "\<lfloor>rnd (sampleRate / 400)\<rfloor> \<le> lag" using l by (simp add: lags_fp_def)
  from first_max_filter_upto [OF fm [unfolded sp] this lt d]
  show "correlation_fp rnd buffer lag < correlation_fp rnd buffer bestLag" .
qed

lemma six_ones_fp:
  "lags_fp (\<lambda>x. x) six_ones 400 = [1, 2]"
  "lag_sums_fp (\<lambda>x. x) six_ones 1 = (2, 2, 2)"
  "lag_sums_fp (\<lambda>x. x) six_ones 2 = (1, 1, 1)"
  by (simp_all add: lags_fp_def lag_sums_fp_def six_ones_def upto_rec1 upt_rec)

theorem autoCorrelate_fp_first_maximum_witness:
  "first_max (correlation_fp (\<lambda>x. x) six_ones)
     (filter (\<lambda>lag. denominator_fp (\<lambda>x. x) six_ones lag \<noteq> 0) (lags_fp (\<lambda>x. x) six_ones 400)) = Some 1
   \<and> correlation_fp (\<lambda>x. x) six_ones 1 = 1 \<and> correlation_fp (\<lambda>x. x) six_ones 2 = 1
   \<and> autoCorrelate_fp (\<lambda>x. x) six_ones 400 = Some 400"
proof -
  have f: "\<forall>x \<in> set six_ones. \<bar>x\<bar> < 2 ^ 128" by (simp add: six_ones_def)
  from autoCorrelate_fp_first_maximum [OF rounding_exact f, of 400] show ?thesis
    by (simp add: estimate_fp_def six_ones_fp denominator_fp_def correlation_fp_def)
qed

subsection \<open>The exact functions are those of identity rounding\<close>

lemma foldl_sums:
  "foldl (\<lambda>(a, b, c) i. (a + f i, b + g i, c + h i)) (a0, b0, c0) is =
     (a0 + (\<Sum>i\<leftarrow>is. f i), b0 + (\<Sum>i\<leftarrow>is. g i), c0 + (\<Sum>i\<leftarrow>is. h i :: real))"
  by (induction "is" arbitrary: a0 b0 c0) (simp_all add: add.assoc)

lemma lag_sums_fp_exact: "lag_sums_fp (\<lambda>x. x) buffer offset = lag_sums buffer offset"
  by (simp add: lag_sums_fp_def lag_sums_def Let_def foldl_sums)

lemma correlation_fp_exact:
  "correlation_fp (\<lambda>x. x) buffer offset = correlation buffer offset"
  "denominator_fp (\<lambda>x. x) buffer offset = denominator buffer offset"
  by (simp_all add: correlation_fp_def correlation_def denominator_fp_def denominator_def
        lag_sums_fp_exact)

lemma estimate_fp_exact: "estimate_fp (\<lambda>x. x) buffer sampleRate = estimate_spec buffer sampleRate"
proof -
  have l: "lags_fp (\<lambda>x. x) buffer sampleRate = lags buffer sampleRate"
    by (simp add: lags_fp_def lags_def)
  have c: "correlation_fp (\<lambda>x. x) buffer = correlation buffer"
    and d: "denominator_fp (\<lambda>x. x) buffer = denominator buffer"
    by (rule ext, simp add: correlation_fp_exact)+
  show ?thesis unfolding estimate_fp_def estimate_spec_def l c d ..
qed

lemma autoCorrelate_fp_exact:
  "autoCorrelate_fp (\<lambda>x. x) buffer sampleRate = autoCorrelate buffer sampleRate"
  by (simp add: autoCorrelate_fp_estimate [OF rounding_exact] autoCorrelate_estimate estimate_fp_exact)

lemma getNoteFromFrequency_fp_exact:
  "getNoteFromFrequency_fp (\<lambda>x. x) (log 2) f = getNoteFromFrequency f"
  by (simp add: getNoteFromFrequency_fp_def getNoteFromFrequency_def js_log2_def A4_FREQ_def Let_def)

subsection \<open>The note of a frequency\<close>

lemma cents_range_fp:
  assumes "rounding rnd"
  shows "- 50 \<le> round (rnd (rnd (m - real_of_int (round m)) * 100))"
    "round (rnd (rnd (m - real_of_int (round m)) * 100)) \<le> 50"
proof -
  have lo: "m - 1 / 2 \<le> real_of_int (round m)" and hi: "real_of_int (round m) \<le> m + 1 / 2"
    using of_int_round_ge [of m] of_int_round_le [of m] by simp_all
  have b: "- (1 / 2) \<le> m - real_of_int (round m)" "m - real_of_int (round m) \<le> 1 / 2"
    using lo hi by simp_all
  have "rnd (- (1 / 2)) \<le> rnd (m - real_of_int (round m))"
    "rnd (m - real_of_int (round m)) \<le> rnd (1 / 2)"
    using rounding_mono [OF assms b(1)] rounding_mono [OF assms b(2)] by simp_all
  then have d: "- (1 / 2) \<le> rnd (m - real_of_int (round m))"
    "rnd (m - real_of_int (round m)) \<le> 1 / 2"
    using rounding_double [OF assms double_fractions(1)] rounding_double [OF assms double_fractions(2)]
    by simp_all
  then have e: "- 50 \<le> rnd (m - real_of_int (round m)) * 100"
    "rnd (m - real_of_int (round m)) * 100 \<le> 50"
    by simp_all
  have "rnd (- 50) \<le> rnd (rnd (m - real_of_int (round m)) * 100)"
    "rnd (rnd (m - real_of_int (round m)) * 100) \<le> rnd 50"
    using rounding_mono [OF assms e(1)] rounding_mono [OF assms e(2)] by simp_all
  then have c: "real_of_int (- 50) \<le> rnd (rnd (m - real_of_int (round m)) * 100)"
    "rnd (rnd (m - real_of_int (round m)) * 100) \<le> real_of_int 50"
    using rounding_double [OF assms double_numerals(4)] rounding_double [OF assms double_numerals(5)]
    by simp_all
  from round_mono [OF c(1)] show "- 50 \<le> round (rnd (rnd (m - real_of_int (round m)) * 100))"
    by (simp only: round_of_int)
  from round_mono [OF c(2)] show "round (rnd (rnd (m - real_of_int (round m)) * 100)) \<le> 50"
    by (simp only: round_of_int)
qed

lemma concert_pitch_fp:
  assumes "rounding rnd" "log2 1 = 0"
  shows "getNoteFromFrequency_fp rnd log2 440 =
     Some \<lparr>noteName = ''A'', noteOctave = 4, midi = 69, cents = 0, frequency = 440\<rparr>"
proof -
  have r: "rnd 0 = 0" "rnd 1 = 1" "rnd 69 = 69" "rnd (23 / 4) = 23 / 4"
    using rounding_double [OF assms(1)] double_numerals double_fractions by simp_all
  have "js_index NOTE_NAMES 9 = Some ''A''"
    by (simp add: js_index_def NOTE_NAMES_def)
  then show ?thesis
    by (simp add: getNoteFromFrequency_fp_def A4_FREQ_def A4_MIDI_def Let_def js_rem_wrap r assms(2))
qed

text \<open>
  Claim C3. In double precision, for every positive frequency whose quotient by 440 is not
  rounded to zero, \<open>getNoteFromFrequency\<close> returns the rounded MIDI number of
  \<open>12 * log2(f / 440) + 69\<close>, the rounded hundredfold of what rounding removed as cents, the
  name at index \<open>((midi % 12) + 12) % 12\<close>, which is \<open>midi mod 12\<close>, of the chromatic table,
  and the octave \<open>floor(midi / 12) - 1\<close>, each arithmetic result rounded as the program
  rounds it; the cents lie between -50 and 50; and, \<open>Math.log2(1)\<close> being 0, 440 Hz is the
  note A of octave 4 with 0 cents.
\<close>

theorem getNoteFromFrequency_fp_mapping:
  assumes "rounding rnd" "log2 1 = 0" "0 < f" "rnd (f / 440) \<noteq> 0"
  shows "(\<exists>info. getNoteFromFrequency_fp rnd log2 f = Some info
            \<and> midi info = round (rnd (rnd (12 * log2 (rnd (f / 440))) + 69))
            \<and> cents info =
                round (rnd (rnd (rnd (rnd (12 * log2 (rnd (f / 440))) + 69)
                                  - real_of_int (midi info)) * 100))
            \<and> js_rem (js_rem (midi info) 12 + 12) 12 = midi info mod 12
            \<and> js_index NOTE_NAMES (midi info mod 12) = Some (noteName info)
            \<and> noteOctave info = \<lfloor>rnd (real_of_int (midi info) / 12)\<rfloor> - 1
            \<and> frequency info = f
            \<and> - 50 \<le> cents info \<and> cents info \<le> 50)
         \<and> getNoteFromFrequency_fp rnd log2 440 =
             Some \<lparr>noteName = ''A'', noteOctave = 4, midi = 69, cents = 0, frequency = 440\<rparr>"
proof
  define m where "m = rnd (rnd (12 * log2 (rnd (f / 440))) + 69)"
  have "0 \<le> rnd (f / 440)" using assms(3) by (intro rounding_nonneg [OF assms(1)]) simp
  with assms(4) have q: "0 < rnd (f / 440)" by simp
  have "0 \<le> round m mod 12" "round m mod 12 < 12" by simp_all
  then have ix: "js_index NOTE_NAMES (round m mod 12) = Some (NOTE_NAMES ! nat (round m mod 12))"
    by (simp add: js_index_def NOTE_NAMES_def)
  show "\<exists>info. getNoteFromFrequency_fp rnd log2 f = Some info
            \<and> midi info = round (rnd (rnd (12 * log2 (rnd (f / 440))) + 69))
            \<and> cents info =
                round (rnd (rnd (rnd (rnd (12 * log2 (rnd (f / 440))) + 69)
                                  - real_of_int (midi info)) * 100))
            \<and> js_rem (js_rem (midi info) 12 + 12) 12 = midi info mod 12
            \<and> js_index NOTE_NAMES (midi info mod 12) = Some (noteName info)
            \<and> noteOctave info = \<lfloor>rnd (real_of_int (midi info) / 12)\<rfloor> - 1
            \<and> frequency info = f
            \<and> - 50 \<le> cents info \<and> cents info \<le> 50"
    using cents_range_fp [OF assms(1), of m] ix q
    by (simp add: getNoteFromFrequency_fp_def Let_def A4_FREQ_def A4_MIDI_def js_rem_wrap m_def)
  show "getNoteFromFrequency_fp rnd log2 440 =
             Some \<lparr>noteName = ''A'', noteOctave = 4, midi = 69, cents = 0, frequency = 440\<rparr>"
    using assms(1,2) by (rule concert_pitch_fp)
qed

theorem getNoteFromFrequency_fp_mapping_witness:
  "\<exists>info. getNoteFromFrequency_fp (\<lambda>x. x) (log 2) 880 = Some info \<and> midi info = 81
      \<and> cents info = 0 \<and> noteName info = ''A'' \<and> noteOctave info = 5"
proof -
  have "log 2 (1::real) = 0" "(0::real) < 880" "(880 / 440 :: real) \<noteq> 0" by simp_all
  from getNoteFromFrequency_fp_mapping [where rnd = "\<lambda>x. x" and ?log2.0 = "log 2", OF rounding_exact this]
  obtain info where i: "getNoteFromFrequency_fp (\<lambda>x. x) (log 2) 880 = Some info"
     "midi info = round (12 * log 2 (880 / 440) + 69 :: real)"
     "cents info = round ((12 * log 2 (880 / 440) + 69 - real_of_int (midi info)) * 100)"
     "js_index NOTE_NAMES (midi info mod 12) = Some (noteName info)"
     "noteOctave info = \<lfloor>real_of_int (midi info) / 12\<rfloor> - 1"
    by blast
  have m: "midi info = 81" using i(2) by simp
  have "cents info = 0" using i(3) by (simp add: m)
  moreover have "noteName info = ''A''" using i(4) by (simp add: m js_index_def NOTE_NAMES_def)
  moreover have "noteOctave info = 5" using i(5) by (simp add: m)
  ultimately show ?thesis using i(1) m by simp
qed

end
